theory Spec2Isabelle
  imports Main "HOL-Library.Char_ord" "HOL-Library.List_Lexorder" "HOL-Library.Sublist"
begin

section \<open>Timestamps\<close>

text \<open>
  The program handles timestamps as pendulum \<^verbatim>\<open>DateTime\<close> objects: aware datetimes made
  of wall-clock fields and a UTC offset. Two things are done with them:
  \<^item> Python compares them (\<^verbatim>\<open><\<close>, \<^verbatim>\<open><=\<close>, \<^verbatim>\<open>==\<close>, \<^verbatim>\<open>min\<close>, \<^verbatim>\<open>max\<close>,
    \<^verbatim>\<open>sort(key=...)\<close>) by the instant they denote;
  \<^item> the SQLite tables store them as TEXT, the result of \<^verbatim>\<open>isoformat()\<close>, and the SQL
    statements compare that text.
  Both readings are modelled: \<open>instant\<close> is the number of microseconds since the start
  of the proleptic Gregorian day 0 in UTC (Python's ordinal arithmetic), \<open>isoformat\<close> is
  the stored text.
\<close>

record DateTime =
  year :: int
  month :: int
  day :: int
  hour :: int
  minute :: int
  second :: int
  microsecond :: int
  utcoffset :: int \<comment> \<open>minutes east of UTC\<close>

definition is_leap :: "int \<Rightarrow> bool" where
  "is_leap y = (y mod 4 = 0 \<and> (y mod 400 = 0 \<or> y mod 100 \<noteq> 0))"

definition days_before_year :: "int \<Rightarrow> int" where
  "days_before_year y = (let p = y - 1 in p * 365 + p div 4 - p div 100 + p div 400)"

definition days_before_month :: "int \<Rightarrow> int \<Rightarrow> int" where
  "days_before_month y m =
     (if 1 \<le> m \<and> m \<le> 12
      then [0, 31, 59, 90, 120, 151, 181, 212, 243, 273, 304, 334] ! nat (m - 1)
      else 0)
     + (if m > 2 \<and> is_leap y then 1 else 0)"

definition ymd2ord :: "int \<Rightarrow> int \<Rightarrow> int \<Rightarrow> int" where
  "ymd2ord y m d = days_before_year y + days_before_month y m + d"

definition instant :: "DateTime \<Rightarrow> int" where
  "instant t =
     (((ymd2ord (year t) (month t) (day t) * 24 + hour t) * 60
         + minute t - utcoffset t) * 60 + second t) * 1000000 + microsecond t"

definition digit :: "int \<Rightarrow> char" where
  "digit n = ''0123456789'' ! nat (n mod 10)"

definition pad2 :: "int \<Rightarrow> string" where
  "pad2 n = [digit (n div 10), digit n]"

definition pad4 :: "int \<Rightarrow> string" where
  "pad4 n = pad2 (n div 100) @ pad2 n"

definition pad6 :: "int \<Rightarrow> string" where
  "pad6 n = pad2 (n div 10000) @ pad4 n"

definition offset_text :: "int \<Rightarrow> string" where
  "offset_text off =
     (if off < 0 then ''-'' else ''+'') @ pad2 (\<bar>off\<bar> div 60) @ '':'' @ pad2 (\<bar>off\<bar> mod 60)"

definition isoformat :: "DateTime \<Rightarrow> string" where
  "isoformat t =
     pad4 (year t) @ ''-'' @ pad2 (month t) @ ''-'' @ pad2 (day t) @ ''T''
       @ pad2 (hour t) @ '':'' @ pad2 (minute t) @ '':'' @ pad2 (second t)
       @ (if microsecond t = 0 then [] else ''.'' @ pad6 (microsecond t))
       @ offset_text (utcoffset t)"

text \<open>Python's \<^verbatim>\<open>min(a, b)\<close> and \<^verbatim>\<open>max(a, b)\<close> return the first argument on a tie.\<close>

definition py_min :: "DateTime \<Rightarrow> DateTime \<Rightarrow> DateTime" where
  "py_min a b = (if instant b < instant a then b else a)"

definition py_max :: "DateTime \<Rightarrow> DateTime \<Rightarrow> DateTime" where
  "py_max a b = (if instant b > instant a then b else a)"

section \<open>DateRange\<close>

text \<open>
  The dataclass \<^verbatim>\<open>DateRange\<close> with its fields \<^verbatim>\<open>start\<close> and \<^verbatim>\<open>end\<close> (the
  second is named \<open>end_dt\<close> here, \<open>end\<close> being reserved).
\<close>

record DateRange =
  start :: DateTime
  end_dt :: DateTime

datatype error =
    ValueError
  | RuntimeError
  | AttributeError
  | IndexError
  | IMAPError
  | RegexError
  | StorageError

definition overlaps :: "DateRange \<Rightarrow> DateRange \<Rightarrow> bool" where
  "overlaps self other =
     (instant (start self) \<le> instant (end_dt other) \<and> instant (end_dt self) \<ge> instant (start other))"

definition merge :: "DateRange \<Rightarrow> DateRange \<Rightarrow> error + DateRange" where
  "merge self other =
     (if \<not> overlaps self other then Inl ValueError
      else Inr \<lparr>start = py_min (start self) (start other),
                end_dt = py_max (end_dt self) (end_dt other)\<rparr>)"

text \<open>
  The pair of instants a range denotes. Python's \<^verbatim>\<open>==\<close> on two \<^verbatim>\<open>DateRange\<close> values
  (the dataclass equality) holds exactly when their spans are equal.
\<close>

definition span :: "DateRange \<Rightarrow> int \<times> int" where
  "span r = (instant (start r), instant (end_dt r))"

section \<open>The cache: tables and coverage\<close>

text \<open>
  \<^verbatim>\<open>EmailMetadata\<close> is the dataclass of the source. The SQLite database holds two
  tables: \<^verbatim>\<open>emails\<close> (primary key \<^verbatim>\<open>message_id\<close>; each row is the metadata and the
  \<^verbatim>\<open>cached_at\<close> stamp) and \<^verbatim>\<open>date_ranges\<close>. Rows are kept in rowid order. A TEXT
  column holding an ISO timestamp is represented by the \<open>DateTime\<close> whose
  \<open>isoformat\<close> it is; \<^verbatim>\<open>pendulum.parse\<close> of that text gives the \<open>DateTime\<close> back.
\<close>

record EmailMetadata =
  message_id :: string
  from_address :: string
  subject :: string
  date :: DateTime
  gmail_link :: "string option"

type_synonym email_row = "EmailMetadata \<times> DateTime"

record cache_db =
  emails :: "email_row list"
  date_ranges :: "DateRange list"

text \<open>\<^verbatim>\<open>SELECT start_date, end_date FROM date_ranges ORDER BY start_date\<close>: the order is
  the order of the stored text.\<close>

definition get_cached_ranges :: "cache_db \<Rightarrow> DateRange list" where
  "get_cached_ranges db = sort_key (\<lambda>r. isoformat (start r)) (date_ranges db)"

text \<open>
  The loop of \<^verbatim>\<open>find_missing_ranges\<close> over the cached ranges: \<open>missing\<close> is the list
  being appended to, \<open>current\<close> the cursor.
\<close>

fun scan_cached :: "DateRange list \<Rightarrow> DateTime \<Rightarrow> DateRange list \<Rightarrow> DateRange list \<times> DateTime" where
  "scan_cached missing current [] = (missing, current)"
| "scan_cached missing current (cached_range # rest) =
     scan_cached
       (if instant current < instant (start cached_range)
        then missing @ [\<lparr>start = current, end_dt = start cached_range\<rparr>]
        else missing)
       (py_max current (end_dt cached_range))
       rest"

definition find_missing_ranges_in :: "DateRange list \<Rightarrow> DateRange \<Rightarrow> DateRange list" where
  "find_missing_ranges_in cached_ranges target_range =
     (if cached_ranges = [] then [target_range]
      else
        (case scan_cached [] (start target_range) cached_ranges of
          (missing, current) \<Rightarrow>
            if instant current < instant (end_dt target_range)
            then missing @ [\<lparr>start = current, end_dt = end_dt target_range\<rparr>]
            else missing))"

definition find_missing_ranges :: "cache_db \<Rightarrow> DateRange \<Rightarrow> DateRange list" where
  "find_missing_ranges db target_range =
     find_missing_ranges_in (get_cached_ranges db) target_range"

text \<open>
  What the claims say about covers and instants: a range is well formed when it
  does not end before it starts; a cover is canonical when its ranges are well
  formed, ascending and pairwise non-overlapping; an instant is covered by a list
  of ranges when one of them contains it (both ends included).
\<close>

definition well_formed :: "DateRange \<Rightarrow> bool" where
  "well_formed r = (instant (start r) \<le> instant (end_dt r))"

fun canonical :: "DateRange list \<Rightarrow> bool" where
  "canonical [] = True"
| "canonical [r] = well_formed r"
| "canonical (r # s # rest) =
     (well_formed r \<and> instant (end_dt r) < instant (start s) \<and> canonical (s # rest))"

definition contains :: "DateRange \<Rightarrow> int \<Rightarrow> bool" where
  "contains r t = (instant (start r) \<le> t \<and> t \<le> instant (end_dt r))"

definition covered :: "DateRange list \<Rightarrow> int \<Rightarrow> bool" where
  "covered rs t = list_ex (\<lambda>r. contains r t) rs"

definition within :: "DateRange \<Rightarrow> DateRange \<Rightarrow> bool" where
  "within g t = (instant (start t) \<le> instant (start g) \<and> instant (end_dt g) \<le> instant (end_dt t))"

text \<open>Day-resolution timestamps in UTC, for the concrete inputs below.\<close>

definition utc_day :: "int \<Rightarrow> int \<Rightarrow> int \<Rightarrow> DateTime" where
  "utc_day y m d =
     \<lparr>year = y, month = m, day = d, hour = 0, minute = 0, second = 0,
      microsecond = 0, utcoffset = 0\<rparr>"

lemmas calendar_defs =
  instant_def ymd2ord_def days_before_year_def days_before_month_def is_leap_def

lemmas isoformat_defs =
  isoformat_def pad2_def pad4_def pad6_def digit_def offset_text_def

section \<open>Coverage update\<close>

text \<open>
  \<^verbatim>\<open>ranges.sort(key=lambda r: r.start)\<close>: Python's stable sort, the keys compared as
  instants.
\<close>

definition sort_by_start :: "DateRange list \<Rightarrow> DateRange list" where
  "sort_by_start ranges = sort_key (\<lambda>r. instant (start r)) ranges"

text \<open>
  The merging loop of \<^verbatim>\<open>_update_date_ranges\<close>: \<open>merged\<close> is the list being appended
  to, \<open>current\<close> the range being grown, the last argument what is left of
  \<^verbatim>\<open>ranges[1:]\<close>. An error raised by \<^verbatim>\<open>merge\<close> leaves the loop.
\<close>

fun merge_loop :: "DateRange list \<Rightarrow> DateRange \<Rightarrow> DateRange list \<Rightarrow> error + DateRange list" where
  "merge_loop merged current [] = Inr (merged @ [current])"
| "merge_loop merged current (next_range # rest) =
     (if overlaps current next_range
      then (case merge current next_range of
              Inl e \<Rightarrow> Inl e
            | Inr m \<Rightarrow> merge_loop merged m rest)
      else merge_loop (merged @ [current]) next_range rest)"

definition merge_ranges :: "DateRange list \<Rightarrow> error + DateRange list" where
  "merge_ranges ranges =
     (case ranges of [] \<Rightarrow> Inr [] | first # rest \<Rightarrow> merge_loop [] first rest)"

text \<open>
  \<^verbatim>\<open>_update_date_ranges(conn, new_range)\<close>. The cached ranges are read through
  \<^verbatim>\<open>get_cached_ranges\<close>, which opens a connection of its own and so sees the
  committed database; the table is rewritten through \<^verbatim>\<open>conn\<close>, whose pending state
  is the second argument (\<^verbatim>\<open>DELETE FROM date_ranges\<close>, then one \<^verbatim>\<open>INSERT\<close> per merged
  range, in order).
\<close>

definition update_date_ranges :: "cache_db \<Rightarrow> cache_db \<Rightarrow> DateRange \<Rightarrow> error + cache_db" where
  "update_date_ranges committed pending new_range =
     (case merge_ranges (sort_by_start (get_cached_ranges committed @ [new_range])) of
        Inl e \<Rightarrow> Inl e
      | Inr merged \<Rightarrow> Inr (pending\<lparr>date_ranges := merged\<rparr>))"

section \<open>Storing, searching and trimming the cache\<close>

text \<open>
  A connection sees the committed database and its own pending changes;
  \<^verbatim>\<open>commit\<close> publishes them, \<^verbatim>\<open>rollback\<close> drops them.
\<close>

record connection =
  committed :: cache_db
  pending :: cache_db

definition connect :: "cache_db \<Rightarrow> connection" where
  "connect db = \<lparr>committed = db, pending = db\<rparr>"

definition commit :: "connection \<Rightarrow> connection" where
  "commit conn = conn\<lparr>committed := pending conn\<rparr>"

definition rollback :: "connection \<Rightarrow> connection" where
  "rollback conn = conn\<lparr>pending := committed conn\<rparr>"

text \<open>
  The statement of the transaction at which SQLite raises, if any: the
  \<^verbatim>\<open>executemany\<close> over the emails after \<open>n\<close> rows were written, the rewrite of
  \<^verbatim>\<open>date_ranges\<close> after the \<^verbatim>\<open>DELETE\<close> and \<open>n\<close> inserted rows, or the commit.
\<close>

datatype fault = InsertFails nat | UpdateRangesFails nat | CommitFails

text \<open>\<^verbatim>\<open>INSERT OR REPLACE INTO emails\<close>: a row with the same \<^verbatim>\<open>message_id\<close> is deleted,
  the new row is added.\<close>

definition upsert :: "DateTime \<Rightarrow> EmailMetadata \<Rightarrow> email_row list \<Rightarrow> email_row list" where
  "upsert now email rows =
     filter (\<lambda>row. message_id (fst row) \<noteq> message_id email) rows @ [(email, now)]"

definition insert_emails :: "DateTime \<Rightarrow> EmailMetadata list \<Rightarrow> email_row list \<Rightarrow> email_row list" where
  "insert_emails now new_emails rows = fold (upsert now) new_emails rows"

text \<open>
  The body of the inner \<^verbatim>\<open>try\<close> of \<^verbatim>\<open>store_emails\<close>: the result is the exception
  raised, if any, and the connection as it stands then.
\<close>

definition transaction_body ::
  "fault option \<Rightarrow> DateTime \<Rightarrow> connection \<Rightarrow> EmailMetadata list \<Rightarrow> DateRange
     \<Rightarrow> error option \<times> connection" where
  "transaction_body flt now conn new_emails date_range =
     (case flt of
        Some (InsertFails n) \<Rightarrow>
          (Some StorageError,
           conn\<lparr>pending := (pending conn)
             \<lparr>emails := insert_emails now (take n new_emails) (emails (pending conn))\<rparr>\<rparr>)
      | _ \<Rightarrow>
          (let conn1 = conn\<lparr>pending := (pending conn)
                 \<lparr>emails := insert_emails now new_emails (emails (pending conn))\<rparr>\<rparr>
           in case update_date_ranges (committed conn1) (pending conn1) date_range of
                Inl e \<Rightarrow> (Some e, conn1)
              | Inr p \<Rightarrow>
                  (case flt of
                     Some (UpdateRangesFails n) \<Rightarrow>
                       (Some StorageError,
                        conn1\<lparr>pending := (pending conn1)\<lparr>date_ranges := take n (date_ranges p)\<rparr>\<rparr>)
                   | Some CommitFails \<Rightarrow> (Some StorageError, conn1\<lparr>pending := p\<rparr>)
                   | _ \<Rightarrow> (None, commit (conn1\<lparr>pending := p\<rparr>)))))"

text \<open>
  \<^verbatim>\<open>store_emails\<close>: nothing is done for an empty list; otherwise the transaction runs
  and an exception is answered by \<^verbatim>\<open>conn.rollback()\<close> and raised again. The result is
  the exception that reaches the caller, if any, and the database afterwards.
\<close>

definition store_emails ::
  "fault option \<Rightarrow> DateTime \<Rightarrow> cache_db \<Rightarrow> EmailMetadata list \<Rightarrow> DateRange
     \<Rightarrow> error option \<times> cache_db" where
  "store_emails flt now db new_emails date_range =
     (if new_emails = [] then (None, db)
      else
        (case transaction_body flt now (connect db) new_emails date_range of
           (Some e, conn) \<Rightarrow> (Some e, committed (rollback conn))
         | (None, conn) \<Rightarrow> (None, committed conn)))"

text \<open>
  \<^verbatim>\<open>search_emails\<close>. \<^verbatim>\<open>re.search\<close> is the first argument: \<open>None\<close> stands for
  \<^verbatim>\<open>re.error\<close>, which SQLite turns into a failed query. The date conditions compare
  the stored text with the ISO text of the window's ends. The query has no
  \<^verbatim>\<open>ORDER BY\<close>: without a window SQLite scans the table, which gives the rows in
  rowid order; with a window it walks the index \<^verbatim>\<open>idx_date\<close> over the range, which
  gives them in the order of the date text, rows of equal text in rowid order. The
  \<^verbatim>\<open>REGEXP\<close> function is called on the rows that walk visits.
\<close>

definition scan_rows :: "DateRange option \<Rightarrow> email_row list \<Rightarrow> email_row list" where
  "scan_rows date_range rows =
     (case date_range of
        None \<Rightarrow> rows
      | Some w \<Rightarrow> sort_key (\<lambda>row. isoformat (date (fst row))) rows)"

definition in_window :: "DateRange option \<Rightarrow> email_row \<Rightarrow> bool" where
  "in_window date_range row =
     (case date_range of
        None \<Rightarrow> True
      | Some w \<Rightarrow> isoformat (date (fst row)) \<ge> isoformat (start w)
                  \<and> isoformat (date (fst row)) \<le> isoformat (end_dt w))"

definition search_emails ::
  "(string \<Rightarrow> string \<Rightarrow> bool option) \<Rightarrow> cache_db \<Rightarrow> string \<Rightarrow> DateRange option
     \<Rightarrow> error + EmailMetadata list" where
  "search_emails re_search db pattern date_range =
     (let candidates = filter (in_window date_range) (scan_rows date_range (emails db)) in
      if list_ex (\<lambda>row. re_search pattern (from_address (fst row)) = None) candidates
      then Inl RegexError
      else Inr (map fst
             (filter (\<lambda>row. re_search pattern (from_address (fst row)) = Some True) candidates)))"

text \<open>
  \<^verbatim>\<open>cleanup_old_data\<close>, given the cutoff
  \<^verbatim>\<open>pendulum.now("UTC").subtract(days=days_to_keep)\<close>: the three statements in the
  order of the source, each comparing stored text with the ISO text of the cutoff.
\<close>

definition cleanup_old_data :: "DateTime \<Rightarrow> cache_db \<Rightarrow> cache_db" where
  "cleanup_old_data cutoff_date db =
     (let cutoff = isoformat cutoff_date;
          kept = filter (\<lambda>row. \<not> isoformat (date (fst row)) < cutoff) (emails db);
          raised = map (\<lambda>r. if isoformat (start r) < cutoff then r\<lparr>start := cutoff_date\<rparr> else r)
                     (date_ranges db);
          remaining = filter (\<lambda>r. \<not> isoformat (end_dt r) < cutoff) raised
      in \<lparr>emails = kept, date_ranges = remaining\<rparr>)"

text \<open>
  A stand-in for \<^verbatim>\<open>re.search\<close> on the concrete inputs below. It is exact on the
  patterns used there: a pattern of letters and digits matches wherever it occurs
  in the text, and the pattern \<^verbatim>\<open>(\<close> (an unterminated group) does not compile.
  Patterns with other characters are not modelled by it.
\<close>

fun occurs_in :: "string \<Rightarrow> string \<Rightarrow> bool" where
  "occurs_in p [] = (p = [])"
| "occurs_in p (c # cs) = (prefix p (c # cs) \<or> occurs_in p cs)"

definition plain_char :: "char \<Rightarrow> bool" where
  "plain_char c =
     ((CHR ''a'' \<le> c \<and> c \<le> CHR ''z'') \<or> (CHR ''A'' \<le> c \<and> c \<le> CHR ''Z'')
      \<or> (CHR ''0'' \<le> c \<and> c \<le> CHR ''9''))"

definition plain_search :: "string \<Rightarrow> string \<Rightarrow> bool option" where
  "plain_search p text = (if list_all plain_char p then Some (occurs_in p text) else None)"

text \<open>
  A message as \<^verbatim>\<open>fetch_emails\<close> returns it for the header
  \<^verbatim>\<open>Date: Mon, 01 Jan 2024 23:00:00 -0500\<close>: \<^verbatim>\<open>_parse_date\<close> keeps the offset of the
  header, so the stored text is \<^verbatim>\<open>2024-01-01T23:00:00-05:00\<close>; the instant is
  2024-01-02 04:00 UTC.
\<close>

definition new_york_evening :: DateTime where
  "new_york_evening =
     \<lparr>year = 2024, month = 1, day = 1, hour = 23, minute = 0, second = 0,
      microsecond = 0, utcoffset = - 300\<rparr>"

definition alice_mail :: EmailMetadata where
  "alice_mail =
     \<lparr>message_id = ''<1@example.com>'', from_address = ''alice@example.com'',
      subject = ''hi'', date = new_york_evening,
      gmail_link = Some ''https://mail.google.com/mail/u/0/#search/subject%3A%22hi%22''\<rparr>"

text \<open>An earlier copy of the same message, as a previous fetch stored it.\<close>

definition old_alice :: EmailMetadata where
  "old_alice =
     \<lparr>message_id = ''<1@example.com>'', from_address = ''alice@example.com'',
      subject = ''draft'', date = utc_day 2024 1 2, gmail_link = None\<rparr>"

section \<open>Fetching from the server\<close>

text \<open>
  The libraries the source calls and the clock, as parameters:
  \<^verbatim>\<open>email.header.decode_header(h)[0]\<close> turned into text (\<open>None\<close> when it raises),
  \<^verbatim>\<open>email.utils.parsedate_to_datetime\<close> followed by \<^verbatim>\<open>pendulum.instance\<close> (\<open>None\<close> when
  it raises), \<^verbatim>\<open>urllib.parse.quote\<close>, \<^verbatim>\<open>pendulum.now("UTC")\<close> (read as one value for
  the whole operation) and the two subtractions \<^verbatim>\<open>search\<close> applies to it.
\<close>

record libs =
  lib_decode_header :: "string \<Rightarrow> string option"
  lib_parsedate_to_datetime :: "string \<Rightarrow> DateTime option"
  lib_quote :: "string \<Rightarrow> string"
  lib_now :: DateTime
  lib_subtract_days :: "DateTime \<Rightarrow> int \<Rightarrow> DateTime"
  lib_subtract_years :: "DateTime \<Rightarrow> int \<Rightarrow> DateTime"

text \<open>
  Text is a list of characters, each a code point below 256. On such text
  \<^verbatim>\<open>str.lower\<close> replaces the capital letters of ASCII and of Latin-1, one for one,
  and leaves every other character as it is.
\<close>

definition upper_case :: string where
  "upper_case =
     ''ABCDEFGHIJKLMNOPQRSTUVWXYZ'' @
     [CHR 0xC0, CHR 0xC1, CHR 0xC2, CHR 0xC3, CHR 0xC4, CHR 0xC5, CHR 0xC6, CHR 0xC7,
      CHR 0xC8, CHR 0xC9, CHR 0xCA, CHR 0xCB, CHR 0xCC, CHR 0xCD, CHR 0xCE, CHR 0xCF,
      CHR 0xD0, CHR 0xD1, CHR 0xD2, CHR 0xD3, CHR 0xD4, CHR 0xD5, CHR 0xD6, CHR 0xD8,
      CHR 0xD9, CHR 0xDA, CHR 0xDB, CHR 0xDC, CHR 0xDD, CHR 0xDE]"

definition lower_case :: string where
  "lower_case =
     ''abcdefghijklmnopqrstuvwxyz'' @
     [CHR 0xE0, CHR 0xE1, CHR 0xE2, CHR 0xE3, CHR 0xE4, CHR 0xE5, CHR 0xE6, CHR 0xE7,
      CHR 0xE8, CHR 0xE9, CHR 0xEA, CHR 0xEB, CHR 0xEC, CHR 0xED, CHR 0xEE, CHR 0xEF,
      CHR 0xF0, CHR 0xF1, CHR 0xF2, CHR 0xF3, CHR 0xF4, CHR 0xF5, CHR 0xF6, CHR 0xF8,
      CHR 0xF9, CHR 0xFA, CHR 0xFB, CHR 0xFC, CHR 0xFD, CHR 0xFE]"

definition lower_char :: "char \<Rightarrow> char" where
  "lower_char c = (case map_of (zip upper_case lower_case) c of None \<Rightarrow> c | Some l \<Rightarrow> l)"

text \<open>
  A header as \<^verbatim>\<open>email.message_from_bytes\<close> yields it: the fields in the order of
  the message, each a name and a value. A value is a \<^verbatim>\<open>str\<close>, or, when the raw field
  holds bytes outside ASCII, an \<^verbatim>\<open>email.header.Header\<close> object (the case
  \<^verbatim>\<open>_decode_header\<close> tests for with \<^verbatim>\<open>isinstance\<close>); \<open>HeaderObject s\<close> is the object
  whose \<^verbatim>\<open>str()\<close> is \<open>s\<close>. An item of the list \<^verbatim>\<open>conn.fetch\<close> returns is
  \<^verbatim>\<open>None\<close>, a byte string such as the closing \<^verbatim>\<open>b')'\<close>, or a pair of the envelope
  and the header.
\<close>

datatype header_value = Text string | HeaderObject string

type_synonym header = "(string \<times> header_value) list"

datatype fetch_item = Absent | Closer string | Part string header

text \<open>
  \<^verbatim>\<open>header.get(name)\<close> and \<^verbatim>\<open>header.get(name, default)\<close>: the value of the first field
  whose name is \<open>name\<close> up to the case of the letters; \<^verbatim>\<open>None\<close>, or the default,
  when there is none.
\<close>

definition header_lookup :: "header \<Rightarrow> string \<Rightarrow> header_value option" where
  "header_lookup h name =
     map_option snd (find (\<lambda>field. map lower_char (fst field) = map lower_char name) h)"

definition header_get :: "header \<Rightarrow> string \<Rightarrow> string \<Rightarrow> header_value" where
  "header_get h name dflt = (case header_lookup h name of None \<Rightarrow> Text dflt | Some v \<Rightarrow> v)"

text \<open>
  \<^verbatim>\<open>str.strip()\<close> removes the characters for which \<^verbatim>\<open>str.isspace\<close> holds from both
  ends: below 256 these are TAB, LF, VT, FF, CR, the separators 0x1C to 0x1F, the
  space, NEL (0x85) and the no-break space (0xA0).
\<close>

definition is_space :: "char \<Rightarrow> bool" where
  "is_space c =
     (c \<in> set [CHR 0x09, CHR 0x0A, CHR 0x0B, CHR 0x0C, CHR 0x0D, CHR 0x1C, CHR 0x1D, CHR 0x1E,
                CHR 0x1F, CHR 0x20, CHR 0x85, CHR 0xA0])"

definition strip :: "string \<Rightarrow> string" where
  "strip s = rev (dropWhile is_space (rev (dropWhile is_space s)))"

text \<open>\<^verbatim>\<open>_decode_header\<close>: the empty text for an empty header (a \<^verbatim>\<open>Header\<close> object is
  never falsy), the text of the header itself when decoding raises.\<close>

definition decode_header :: "libs \<Rightarrow> header_value \<Rightarrow> string" where
  "decode_header L h =
     (if h = Text [] then []
      else
        (let s = (case h of Text t \<Rightarrow> t | HeaderObject t \<Rightarrow> t)
         in case lib_decode_header L s of None \<Rightarrow> s | Some v \<Rightarrow> v))"

text \<open>\<^verbatim>\<open>_parse_date\<close>, applied to \<^verbatim>\<open>header.get("Date")\<close>, which is \<^verbatim>\<open>None\<close> when the
  field is missing. On a \<^verbatim>\<open>Header\<close> object \<^verbatim>\<open>parsedate_to_datetime\<close> raises, which the
  bare \<^verbatim>\<open>except\<close> answers with the current time.\<close>

definition parse_date :: "libs \<Rightarrow> header_value option \<Rightarrow> DateTime" where
  "parse_date L date_str =
     (case date_str of
        None \<Rightarrow> lib_now L
      | Some (HeaderObject s) \<Rightarrow> lib_now L
      | Some (Text s) \<Rightarrow>
          if s = [] then lib_now L
          else (case lib_parsedate_to_datetime L s of None \<Rightarrow> lib_now L | Some dt \<Rightarrow> dt))"

definition generate_gmail_link :: "libs \<Rightarrow> string \<Rightarrow> string option" where
  "generate_gmail_link L subj =
     (if subj = [] then None
      else Some (''https://mail.google.com/mail/u/0/#search/subject%3A'' @ lib_quote L subj))"

text \<open>
  Truth values of Python objects, as \<^verbatim>\<open>all\<close> and \<^verbatim>\<open>if\<close> read them: a \<^verbatim>\<open>str\<close> is true
  when it is not empty; a \<^verbatim>\<open>DateTime\<close> defines neither \<^verbatim>\<open>__bool__\<close> nor \<^verbatim>\<open>__len__\<close>
  and is true whatever its value.
\<close>

definition truthy_str :: "string \<Rightarrow> bool" where
  "truthy_str s = (s \<noteq> [])"

definition truthy_datetime :: "DateTime \<Rightarrow> bool" where
  "truthy_datetime dt = True"

text \<open>
  The body of the loop over one fetched header: an exception, or the record appended
  to \<^verbatim>\<open>emails\<close>, if any. \<^verbatim>\<open>header.get("Message-ID", "").strip()\<close> comes first and is
  outside any \<^verbatim>\<open>try\<close>: a \<^verbatim>\<open>Header\<close> object has no \<^verbatim>\<open>strip\<close>. The test is
  \<^verbatim>\<open>all([message_id, from_address, date])\<close>.
\<close>

definition parse_message :: "libs \<Rightarrow> header \<Rightarrow> error + EmailMetadata option" where
  "parse_message L h =
     (case header_get h ''Message-ID'' [] of
        HeaderObject s \<Rightarrow> Inl AttributeError
      | Text raw_id \<Rightarrow>
          (let msg_id = strip raw_id;
               sender = decode_header L (header_get h ''From'' []);
               subj = decode_header L (header_get h ''Subject'' ''(No Subject)'');
               dt = parse_date L (header_lookup h ''Date'');
               link = (if truthy_str subj
                       then generate_gmail_link L ([CHR 0x22] @ subj @ [CHR 0x22])
                       else None)
           in if list_all (\<lambda>b. b) [truthy_str msg_id, truthy_str sender, truthy_datetime dt]
              then Inr (Some \<lparr>message_id = msg_id, from_address = sender, subject = subj,
                               date = dt, gmail_link = link\<rparr>)
              else Inr None))"

text \<open>
  \<^verbatim>\<open>for j in range(0, len(header_data), 2)\<close>: every second item is looked at. A falsy
  item (\<^verbatim>\<open>None\<close> or the empty byte string) is skipped. For a byte string of one byte
  \<^verbatim>\<open>header_data[j][1]\<close> raises \<^verbatim>\<open>IndexError\<close>; for a longer one it is an integer, on
  which \<^verbatim>\<open>email.message_from_bytes\<close> raises \<^verbatim>\<open>AttributeError\<close>. A pair is parsed.
\<close>

fun process_batch :: "libs \<Rightarrow> EmailMetadata list \<Rightarrow> fetch_item list \<Rightarrow> error + EmailMetadata list" where
  "process_batch L acc [] = Inr acc"
| "process_batch L acc (Absent # rest) = process_batch L acc (drop 1 rest)"
| "process_batch L acc (Closer b # rest) =
     (if b = [] then process_batch L acc (drop 1 rest)
      else if length b < 2 then Inl IndexError
      else Inl AttributeError)"
| "process_batch L acc (Part envelope h # rest) =
     (case parse_message L h of
        Inl e \<Rightarrow> Inl e
      | Inr None \<Rightarrow> process_batch L acc (drop 1 rest)
      | Inr (Some email) \<Rightarrow> process_batch L (acc @ [email]) (drop 1 rest))"

text \<open>The server as seen through one connection: the answer to the dated search
  (message numbers) and to the fetch of a batch.\<close>

record imap_conn =
  imap_search :: "DateRange \<Rightarrow> error + string list"
  imap_fetch :: "string list \<Rightarrow> error + fetch_item list"

function batches :: "nat \<Rightarrow> 'a list \<Rightarrow> 'a list list" where
  "batches n xs = (if n = 0 \<or> xs = [] then [] else take n xs # batches n (drop n xs))"
  by pat_completeness auto
termination
  by (relation "measure (\<lambda>(n, xs). length xs)") auto

fun fetch_batches :: "libs \<Rightarrow> imap_conn \<Rightarrow> EmailMetadata list \<Rightarrow> string list list
    \<Rightarrow> error + EmailMetadata list" where
  "fetch_batches L conn acc [] = Inr acc"
| "fetch_batches L conn acc (batch # rest) =
     (case imap_fetch conn batch of
        Inl e \<Rightarrow> Inl e
      | Inr header_data \<Rightarrow>
          (case process_batch L acc header_data of
             Inl e \<Rightarrow> Inl e
           | Inr acc' \<Rightarrow> fetch_batches L conn acc' rest))"

text \<open>
  \<^verbatim>\<open>fetch_emails\<close>; the first argument after the libraries is what
  \<^verbatim>\<open>_get_connection\<close> returned. Returning the connection to the pool is not part of
  the model.
\<close>

definition fetch_emails :: "libs \<Rightarrow> imap_conn option \<Rightarrow> DateRange \<Rightarrow> error + EmailMetadata list" where
  "fetch_emails L connection date_range =
     (case connection of
        None \<Rightarrow> Inl RuntimeError
      | Some conn \<Rightarrow>
          (case imap_search conn date_range of
             Inl e \<Rightarrow> Inl e
           | Inr message_numbers \<Rightarrow>
               if message_numbers = [] then Inr []
               else fetch_batches L conn [] (batches 100 message_numbers)))"

text \<open>What the claims say about a batch: the items the loop looks at, and the records
  an item contributes.\<close>

fun looked_at :: "'a list \<Rightarrow> 'a list" where
  "looked_at [] = []"
| "looked_at (x # rest) = x # looked_at (drop 1 rest)"

definition readable :: "fetch_item \<Rightarrow> bool" where
  "readable item =
     (case item of
        Absent \<Rightarrow> True
      | Closer b \<Rightarrow> b = []
      | Part envelope h \<Rightarrow> (case header_get h ''Message-ID'' [] of
                              Text s \<Rightarrow> True | HeaderObject s \<Rightarrow> False))"

definition records_of :: "libs \<Rightarrow> fetch_item \<Rightarrow> EmailMetadata list" where
  "records_of L item =
     (case item of
        Part envelope h \<Rightarrow> (case parse_message L h of Inr (Some e) \<Rightarrow> [e] | _ \<Rightarrow> [])
      | _ \<Rightarrow> [])"


declare batches.simps [simp del]

text \<open>
  \<^verbatim>\<open>urllib.parse.quote\<close> with its default \<^verbatim>\<open>safe='/'\<close>: letters, digits and
  \<^verbatim>\<open>_.-~/\<close> are kept, every other character is replaced by the bytes of its UTF-8
  encoding, each written as \<^verbatim>\<open>%\<close> and two capital hexadecimal digits (one byte below
  128, two bytes from 128 to 255).
\<close>

definition hex_digit :: "nat \<Rightarrow> char" where
  "hex_digit n = ''0123456789ABCDEF'' ! (n mod 16)"

definition percent :: "nat \<Rightarrow> string" where
  "percent b = [CHR ''%'', hex_digit (b div 16), hex_digit b]"

definition unreserved :: "char \<Rightarrow> bool" where
  "unreserved c =
     ((CHR ''a'' \<le> c \<and> c \<le> CHR ''z'') \<or> (CHR ''A'' \<le> c \<and> c \<le> CHR ''Z'')
      \<or> (CHR ''0'' \<le> c \<and> c \<le> CHR ''9'') \<or> c \<in> set ''_.-~/'')"

definition quote :: "string \<Rightarrow> string" where
  "quote s =
     concat (map (\<lambda>c. let n = (of_char c :: nat) in
                       if unreserved c then [c]
                       else if n < 128 then percent n
                       else percent (192 + n div 64) @ percent (128 + n mod 64)) s)"

text \<open>
  Concrete inputs for the fetch scenarios. The library stand-ins are exact on these
  inputs: the headers are plain ASCII, which \<^verbatim>\<open>decode_header\<close> returns as it is; the
  one date string used parses to 2024-01-01T23:00:00-05:00; the clock reads
  2024-01-04T00:00:00+00:00; the subtractions stay within the month and away from
  29 February.
\<close>

definition plain_libs :: libs where
  "plain_libs =
     \<lparr>lib_decode_header = (\<lambda>h. Some h),
      lib_parsedate_to_datetime =
        (\<lambda>s. if s = ''Mon, 01 Jan 2024 23:00:00 -0500'' then Some new_york_evening else None),
      lib_quote = quote,
      lib_now = utc_day 2024 1 4,
      lib_subtract_days = (\<lambda>t n. t\<lparr>day := day t - n\<rparr>),
      lib_subtract_years = (\<lambda>t n. t\<lparr>year := year t - n\<rparr>)\<rparr>"

definition alice_header :: header where
  "alice_header =
     [(''Message-ID'', Text ''<1@example.com>''), (''From'', Text ''alice@example.com''),
      (''Subject'', Text ''hi''), (''Date'', Text ''Mon, 01 Jan 2024 23:00:00 -0500'')]"

text \<open>A header with no \<^verbatim>\<open>Date\<close> and no \<^verbatim>\<open>Subject\<close>, its field names in another
  spelling.\<close>

definition bob_header :: header where
  "bob_header =
     [(''Message-Id'', Text ''<3@example.com>''), (''FROM'', Text ''bob@example.com'')]"

text \<open>A header whose \<^verbatim>\<open>Message-ID\<close> field holds a byte outside ASCII
  (\<^verbatim>\<open>Message-ID: <\xff@example.com>\<close>).\<close>

definition raw_id_header :: header where
  "raw_id_header =
     [(''Message-ID'', HeaderObject ''<?@example.com>''), (''From'', Text ''carol@example.com'')]"

definition raw_id_response :: "fetch_item list" where
  "raw_id_response =
     [Part ''1 (BODY[HEADER.FIELDS (FROM SUBJECT DATE MESSAGE-ID)] {120}'' alice_header,
      Closer '')'',
      Part ''2 (BODY[HEADER.FIELDS (FROM SUBJECT DATE MESSAGE-ID)] {60}'' raw_id_header,
      Closer '')'',
      Part ''3 (BODY[HEADER.FIELDS (FROM SUBJECT DATE MESSAGE-ID)] {60}'' bob_header,
      Closer '')'']"

definition three_message_response :: "fetch_item list" where
  "three_message_response =
     [Part ''1 (BODY[HEADER.FIELDS (FROM SUBJECT DATE MESSAGE-ID)] {120}'' alice_header,
      Closer '')'',
      Absent,
      Closer '')'',
      Part ''3 (BODY[HEADER.FIELDS (FROM SUBJECT DATE MESSAGE-ID)] {60}'' bob_header,
      Closer '')'']"

definition three_message_server :: imap_conn where
  "three_message_server =
     \<lparr>imap_search = (\<lambda>r. Inr [''1'', ''2'', ''3'']),
      imap_fetch = (\<lambda>batch. Inr three_message_response)\<rparr>"

definition bob_mail :: EmailMetadata where
  "bob_mail =
     \<lparr>message_id = ''<3@example.com>'', from_address = ''bob@example.com'',
      subject = ''(No Subject)'', date = utc_day 2024 1 4,
      gmail_link =
        Some ''https://mail.google.com/mail/u/0/#search/subject%3A%22%28No%20Subject%29%22''\<rparr>"

section \<open>The search service\<close>

text \<open>
  \<^verbatim>\<open>EmailSearchService.search\<close>. The target window ends now and starts \<^verbatim>\<open>days_back\<close>
  days before, or a year before when \<^verbatim>\<open>days_back\<close> is \<^verbatim>\<open>None\<close> or 0.
\<close>

definition target_range_of :: "libs \<Rightarrow> int option \<Rightarrow> DateRange" where
  "target_range_of L days_back =
     (let end_date = lib_now L;
          start_date =
            (case days_back of
               None \<Rightarrow> lib_subtract_years L end_date 1
             | Some n \<Rightarrow> if n \<noteq> 0 then lib_subtract_days L end_date n
                         else lib_subtract_years L end_date 1)
      in \<lparr>start = start_date, end_dt = end_date\<rparr>)"

text \<open>
  What the service does to the outside, in order: a call of
  \<^verbatim>\<open>imap_client.fetch_emails\<close> and a call of \<^verbatim>\<open>cache.store_emails\<close>, each for a range.
\<close>

datatype event = FetchCall DateRange | StoreCall DateRange

text \<open>
  The loop over the missing ranges. An exception of the fetch or of the store is
  caught, printed, and the loop goes on; \<open>faults\<close> says which statement of the
  storing transaction fails for which range, if any.
\<close>

fun fetch_missing ::
  "libs \<Rightarrow> imap_conn option \<Rightarrow> (DateRange \<Rightarrow> fault option) \<Rightarrow> cache_db \<Rightarrow> DateRange list
     \<Rightarrow> event list \<times> cache_db" where
  "fetch_missing L client faults db [] = ([], db)"
| "fetch_missing L client faults db (date_range # rest) =
     (case fetch_emails L client date_range of
        Inl e \<Rightarrow>
          (case fetch_missing L client faults db rest of
             (log, db') \<Rightarrow> (FetchCall date_range # log, db'))
      | Inr new_emails \<Rightarrow>
          if new_emails \<noteq> []
          then
            (case store_emails (faults date_range) (lib_now L) db new_emails date_range of
               (raised, db1) \<Rightarrow>
                 (case fetch_missing L client faults db1 rest of
                    (log, db') \<Rightarrow> (FetchCall date_range # StoreCall date_range # log, db')))
          else
            (case fetch_missing L client faults db rest of
               (log, db') \<Rightarrow> (FetchCall date_range # log, db')))"

text \<open>\<^verbatim>\<open>sorted(results, key=lambda x: x.date, reverse=True)\<close>: descending by instant,
  records of equal date in their original order.\<close>

definition newest_first :: "EmailMetadata list \<Rightarrow> EmailMetadata list" where
  "newest_first results = rev (sort_key (\<lambda>e. instant (date e)) (rev results))"

text \<open>
  The result of \<open>search\<close>: the calls it made, the database afterwards, and what the
  caller gets, the sorted records or the exception of the query.
\<close>

definition search ::
  "libs \<Rightarrow> (string \<Rightarrow> string \<Rightarrow> bool option) \<Rightarrow> imap_conn option \<Rightarrow> (DateRange \<Rightarrow> fault option)
     \<Rightarrow> cache_db \<Rightarrow> string \<Rightarrow> int option
     \<Rightarrow> event list \<times> cache_db \<times> (error + EmailMetadata list)" where
  "search L re_search client faults db pattern days_back =
     (let target_range = target_range_of L days_back;
          missing_ranges = find_missing_ranges db target_range
      in case fetch_missing L client faults db missing_ranges of
           (log, db') \<Rightarrow>
             (log, db',
              map_sum id newest_first (search_emails re_search db' pattern (Some target_range))))"

fun fetch_calls :: "event list \<Rightarrow> DateRange list" where
  "fetch_calls [] = []"
| "fetch_calls (FetchCall r # log) = r # fetch_calls log"
| "fetch_calls (StoreCall r # log) = fetch_calls log"

text \<open>
  The loop of \<^verbatim>\<open>get_search_parameters\<close> that asks for the pattern, over the lines the
  user types: \<^verbatim>\<open>exit\<close> in any case ends it with no pattern, a line that
  \<^verbatim>\<open>re.compile\<close> rejects is asked for again. With no line left the loop waits, which
  is the outer \<open>None\<close>.
\<close>

fun get_search_pattern :: "(string \<Rightarrow> bool) \<Rightarrow> string list \<Rightarrow> string option option" where
  "get_search_pattern re_compiles [] = None"
| "get_search_pattern re_compiles (pattern # later) =
     (if map lower_char pattern = ''exit'' then Some None
      else if re_compiles pattern then Some (Some pattern)
      else get_search_pattern re_compiles later)"

text \<open>A server with no message in any range.\<close>

definition empty_server :: imap_conn where
  "empty_server = \<lparr>imap_search = (\<lambda>r. Inr []), imap_fetch = (\<lambda>batch. Inr [])\<rparr>"

definition no_faults :: "DateRange \<Rightarrow> fault option" where
  "no_faults date_range = None"

definition last_year :: DateRange where
  "last_year = \<lparr>start = utc_day 2023 1 4, end_dt = utc_day 2024 1 4\<rparr>"

text \<open>
  For the gaps: an instant is strictly inside a range when it is neither of its
  ends; a list of ranges is in sequence when each ends no later than the next
  starts, now or later in the list (two of them share at most an end point).
\<close>

definition inside :: "DateRange \<Rightarrow> int \<Rightarrow> bool" where
  "inside g t = (instant (start g) < t \<and> t < instant (end_dt g))"

definition in_sequence :: "DateRange list \<Rightarrow> bool" where
  "in_sequence gs = sorted_wrt (\<lambda>g h. instant (end_dt g) \<le> instant (start h)) gs"

section \<open>Interval algebra\<close>

lemma instant_py_min: "instant (py_min a b) = min (instant a) (instant b)"
  by (simp add: py_min_def min_def)

lemma instant_py_max: "instant (py_max a b) = max (instant a) (instant b)"
  by (simp add: py_max_def max_def)

text \<open>
  Claim C8. \<open>overlaps\<close> is symmetric and is the closed test
  \<open>A.start \<le> B.end \<and> A.end \<ge> B.start\<close> (so touching ranges overlap);
  \<open>merge\<close> raises \<open>ValueError\<close> exactly when the ranges do not overlap; otherwise its
  result starts at the earlier start and ends at the later end, and the two orders
  of the arguments give equal results.
\<close>

theorem DateRange_overlaps_merge:
  "overlaps A B = overlaps B A
   \<and> overlaps A B = (instant (start A) \<le> instant (end_dt B) \<and> instant (end_dt A) \<ge> instant (start B))
   \<and> (merge A B = Inl ValueError) = (\<not> overlaps A B)
   \<and> map_sum id span (merge A B) =
       (if overlaps A B
        then Inr (min (instant (start A)) (instant (start B)),
                  max (instant (end_dt A)) (instant (end_dt B)))
        else Inl ValueError)
   \<and> map_sum id span (merge A B) = map_sum id span (merge B A)"
proof -
  have sym: "overlaps A B = overlaps B A"
    by (auto simp: overlaps_def)
  have shape: "\<And>X Y. map_sum id span (merge X Y) =
       (if overlaps X Y
        then Inr (min (instant (start X)) (instant (start Y)),
                  max (instant (end_dt X)) (instant (end_dt Y)))
        else Inl ValueError)"
    by (simp add: merge_def span_def instant_py_min instant_py_max)
  have comm: "map_sum id span (merge A B) = map_sum id span (merge B A)"
    unfolding shape using sym by (simp add: min.commute max.commute)
  have raises: "(merge A B = Inl ValueError) = (\<not> overlaps A B)"
    by (simp add: merge_def)
  show ?thesis
    using sym shape comm raises by (simp add: overlaps_def)
qed

section \<open>Gap computation\<close>

lemma scan_cached_acc:
  "scan_cached missing current cs =
     (missing @ fst (scan_cached [] current cs), snd (scan_cached [] current cs))"
proof (induction cs arbitrary: missing current)
  case Nil
  show ?case by simp
next
  case (Cons c cs)
  show ?case
    by (simp add: Cons.IH [of "missing @ [x]" for x] Cons.IH [of "[x]" for x] Cons.IH [of missing])
qed

lemma scan_cached_cursor: "instant current \<le> instant (snd (scan_cached missing current cs))"
proof (induction cs arbitrary: missing current)
  case Nil
  show ?case by simp
next
  case (Cons c cs)
  have "instant current \<le> instant (py_max current (end_dt c))"
    by (simp add: instant_py_max)
  also have "\<dots> \<le> instant (snd (scan_cached
       (if instant current < instant (start c)
        then missing @ [\<lparr>start = current, end_dt = start c\<rparr>] else missing)
       (py_max current (end_dt c)) cs))"
    by (rule Cons.IH)
  finally show ?case by simp
qed

lemma scan_cached_no_gap:
  "list_all (\<lambda>c. instant (start c) \<le> instant current) cs \<Longrightarrow>
   fst (scan_cached missing current cs) = missing"
proof (induction cs arbitrary: missing current)
  case Nil
  show ?case by simp
next
  case (Cons c cs)
  from Cons.prems have here: "instant (start c) \<le> instant current"
    and rest: "list_all (\<lambda>c. instant (start c) \<le> instant current) cs"
    by simp_all
  have "list_all (\<lambda>d. instant (start d) \<le> instant (py_max current (end_dt c))) cs"
    using rest by (induction cs) (auto simp: instant_py_max)
  from Cons.IH [OF this] here show ?case by simp
qed

text \<open>
  Claim C1 (the range it fails on). With a cached range that starts after the end
  of the target, \<open>find_missing_ranges\<close> returns a gap that runs from the start of the
  target to the start of that cached range: the gap is not inside the target.
  Cached cover: 2024-02-01 to 2024-02-10; target: 2024-01-01 to 2024-01-10;
  result: the single gap 2024-01-01 to 2024-02-01.
\<close>

theorem gap_beyond_target:
  "canonical [\<lparr>start = utc_day 2024 2 1, end_dt = utc_day 2024 2 10\<rparr>]
   \<and> find_missing_ranges_in
       [\<lparr>start = utc_day 2024 2 1, end_dt = utc_day 2024 2 10\<rparr>]
       \<lparr>start = utc_day 2024 1 1, end_dt = utc_day 2024 1 10\<rparr>
     = [\<lparr>start = utc_day 2024 1 1, end_dt = utc_day 2024 2 1\<rparr>]
   \<and> find_missing_ranges
       \<lparr>emails = [], date_ranges = [\<lparr>start = utc_day 2024 2 1, end_dt = utc_day 2024 2 10\<rparr>]\<rparr>
       \<lparr>start = utc_day 2024 1 1, end_dt = utc_day 2024 1 10\<rparr>
     = [\<lparr>start = utc_day 2024 1 1, end_dt = utc_day 2024 2 1\<rparr>]
   \<and> \<not> within \<lparr>start = utc_day 2024 1 1, end_dt = utc_day 2024 2 1\<rparr>
              \<lparr>start = utc_day 2024 1 1, end_dt = utc_day 2024 1 10\<rparr>"
  by (simp add: find_missing_ranges_def get_cached_ranges_def find_missing_ranges_in_def
      well_formed_def within_def utc_day_def calendar_defs py_max_def)

text \<open>
  Claim C10 (as stated, it fails). The target is the single instant 2024-01-05, the
  cover is the one range 2024-02-01 to 2024-02-10, which does not contain that
  instant: the result is not empty but the gap 2024-01-05 to 2024-02-01.
\<close>

theorem zero_length_target_later_cover:
  "canonical [\<lparr>start = utc_day 2024 2 1, end_dt = utc_day 2024 2 10\<rparr>]
   \<and> \<not> covered [\<lparr>start = utc_day 2024 2 1, end_dt = utc_day 2024 2 10\<rparr>] (instant (utc_day 2024 1 5))
   \<and> find_missing_ranges_in
       [\<lparr>start = utc_day 2024 2 1, end_dt = utc_day 2024 2 10\<rparr>]
       \<lparr>start = utc_day 2024 1 5, end_dt = utc_day 2024 1 5\<rparr>
     = [\<lparr>start = utc_day 2024 1 5, end_dt = utc_day 2024 2 1\<rparr>]
   \<and> find_missing_ranges
       \<lparr>emails = [], date_ranges = [\<lparr>start = utc_day 2024 2 1, end_dt = utc_day 2024 2 10\<rparr>]\<rparr>
       \<lparr>start = utc_day 2024 1 5, end_dt = utc_day 2024 1 5\<rparr>
     = [\<lparr>start = utc_day 2024 1 5, end_dt = utc_day 2024 2 1\<rparr>]"
  by (simp add: find_missing_ranges_def get_cached_ranges_def find_missing_ranges_in_def
      well_formed_def covered_def contains_def utc_day_def calendar_defs py_max_def)

text \<open>
  Claim C10 (amended). For a zero-length target \<open>T\<close> and a cover none of whose ranges
  starts after the instant of \<open>T\<close>: the result is \<open>[T]\<close> when the cover is empty and
  the empty list otherwise; the cursor never ends before \<open>T.end\<close>, so the trailing
  comparison \<open>current < T.end\<close> never holds.
\<close>

theorem zero_length_target:
  assumes "instant (start T) = instant (end_dt T)"
    and "list_all (\<lambda>c. instant (start c) \<le> instant (start T)) C"
  shows "find_missing_ranges_in C T = (if C = [] then [T] else [])
         \<and> instant (end_dt T) \<le> instant (snd (scan_cached [] (start T) C))"
proof -
  have cur: "instant (end_dt T) \<le> instant (snd (scan_cached [] (start T) C))"
    using scan_cached_cursor [of "start T" "[]" C] assms(1) by simp
  have gaps: "fst (scan_cached [] (start T) C) = []"
    using scan_cached_no_gap [OF assms(2)] .
  show ?thesis
    using cur gaps
    by (cases "scan_cached [] (start T) C") (auto simp: find_missing_ranges_in_def)
qed

theorem zero_length_target_witness:
  "find_missing_ranges_in
     [\<lparr>start = utc_day 2023 12 1, end_dt = utc_day 2023 12 10\<rparr>]
     \<lparr>start = utc_day 2024 1 5, end_dt = utc_day 2024 1 5\<rparr> = []
   \<and> find_missing_ranges_in [] \<lparr>start = utc_day 2024 1 5, end_dt = utc_day 2024 1 5\<rparr>
       = [\<lparr>start = utc_day 2024 1 5, end_dt = utc_day 2024 1 5\<rparr>]"
  using zero_length_target [of "\<lparr>start = utc_day 2024 1 5, end_dt = utc_day 2024 1 5\<rparr>"
      "[\<lparr>start = utc_day 2023 12 1, end_dt = utc_day 2023 12 10\<rparr>]"]
    zero_length_target [of "\<lparr>start = utc_day 2024 1 5, end_dt = utc_day 2024 1 5\<rparr>" "[]"]
  by (simp add: utc_day_def calendar_defs)

section \<open>Coverage update keeps the canonical cover\<close>

lemma canonical_Cons:
  "canonical (x # r) =
     (well_formed x \<and> (r = [] \<or> instant (end_dt x) < instant (start (hd r))) \<and> canonical r)"
  by (cases r) auto

lemma covered_Cons: "covered (r # rs) t = (contains r t \<or> covered rs t)"
  by (simp add: covered_def)

lemma covered_Nil: "covered [] t = False"
  by (simp add: covered_def)

lemma covered_append: "covered (xs @ ys) t = (covered xs t \<or> covered ys t)"
  by (simp add: covered_def list_ex_iff) blast

lemma covered_set: "covered rs t = (\<exists>r \<in> set rs. contains r t)"
  by (simp add: covered_def list_ex_iff)

lemma merge_loop_acc:
  "merge_loop merged current rest = map_sum id (\<lambda>r. merged @ r) (merge_loop [] current rest)"
proof (induction rest arbitrary: merged current)
  case Nil
  show ?case by simp
next
  case (Cons n rest)
  show ?case
  proof (cases "overlaps current n")
    case True
    then show ?thesis
      by (simp add: merge_def Cons.IH [of merged])
  next
    case False
    have "merge_loop (merged @ [current]) n rest
          = map_sum id (\<lambda>r. (merged @ [current]) @ r) (merge_loop [] n rest)"
      by (rule Cons.IH)
    moreover have "merge_loop [current] n rest
          = map_sum id (\<lambda>r. [current] @ r) (merge_loop [] n rest)"
      by (rule Cons.IH)
    ultimately show ?thesis
      using False by (cases "merge_loop [] n rest") simp_all
  qed
qed

lemma contains_merged:
  assumes "overlaps a b" and "well_formed a" and "well_formed b"
  shows "contains \<lparr>start = py_min (start a) (start b), end_dt = py_max (end_dt a) (end_dt b)\<rparr> t
         = (contains a t \<or> contains b t)"
  using assms
  by (auto simp: contains_def overlaps_def well_formed_def instant_py_min instant_py_max)

lemma merge_loop_canonical:
  assumes "well_formed current" and "list_all well_formed rest"
    and "sorted (map (\<lambda>r. instant (start r)) (current # rest))"
  shows "\<exists>res. merge_loop [] current rest = Inr res \<and> res \<noteq> []
           \<and> instant (start (hd res)) = instant (start current)
           \<and> canonical res
           \<and> (\<forall>t. covered res t = (contains current t \<or> covered rest t))"
  using assms
proof (induction rest arbitrary: current)
  case Nil
  then show ?case by (simp add: covered_def)
next
  case (Cons n rest)
  from Cons.prems have wf_n: "well_formed n" and wf_rest: "list_all well_formed rest"
    and le_n: "instant (start current) \<le> instant (start n)"
    and sorted_n: "sorted (map (\<lambda>r. instant (start r)) (n # rest))"
    and le_rest: "\<forall>r \<in> set rest. instant (start current) \<le> instant (start r)"
    by auto
  show ?case
  proof (cases "overlaps current n")
    case True
    define m where "m = \<lparr>start = py_min (start current) (start n),
                          end_dt = py_max (end_dt current) (end_dt n)\<rparr>"
    have m_start: "instant (start m) = instant (start current)"
      using le_n by (simp add: m_def instant_py_min)
    have wf_m: "well_formed m"
      using Cons.prems(1) wf_n le_n
      by (auto simp: m_def well_formed_def instant_py_min instant_py_max)
    have sorted_m: "sorted (map (\<lambda>r. instant (start r)) (m # rest))"
      using sorted_n le_rest by (simp add: m_start)
    from Cons.IH [OF wf_m wf_rest sorted_m]
    obtain res where res: "merge_loop [] m rest = Inr res" "res \<noteq> []"
      "instant (start (hd res)) = instant (start m)" "canonical res"
      "\<forall>t. covered res t = (contains m t \<or> covered rest t)"
      by blast
    have "merge_loop [] current (n # rest) = Inr res"
      using True res(1) by (simp add: merge_def m_def)
    moreover have "\<forall>t. covered res t = (contains current t \<or> covered (n # rest) t)"
      using res(5) contains_merged [OF True Cons.prems(1) wf_n]
      by (auto simp: m_def covered_Cons)
    ultimately show ?thesis
      using res(2,3,4) m_start by simp
  next
    case False
    from Cons.IH [OF wf_n wf_rest sorted_n]
    obtain res where res: "merge_loop [] n rest = Inr res" "res \<noteq> []"
      "instant (start (hd res)) = instant (start n)" "canonical res"
      "\<forall>t. covered res t = (contains n t \<or> covered rest t)"
      by blast
    have gap: "instant (end_dt current) < instant (start n)"
      using False le_n wf_n by (auto simp: overlaps_def well_formed_def)
    have "merge_loop [] current (n # rest) = Inr (current # res)"
      using False res(1) merge_loop_acc [of "[current]" n rest] by simp
    moreover have "canonical (current # res)"
      using Cons.prems(1) res(2,3,4) gap by (simp add: canonical_Cons)
    moreover have "\<forall>t. covered (current # res) t = (contains current t \<or> covered (n # rest) t)"
      using res(5) by (simp add: covered_Cons)
    ultimately show ?thesis by simp
  qed
qed

lemma merge_ranges_sorted:
  assumes "list_all well_formed ranges"
  shows "\<exists>res. merge_ranges (sort_by_start ranges) = Inr res \<and> canonical res
           \<and> (\<forall>t. covered res t = covered ranges t)"
proof (cases "sort_by_start ranges")
  case Nil
  then have "ranges = []"
    by (metis sort_by_start_def length_sort length_0_conv)
  then show ?thesis
    by (simp add: merge_ranges_def sort_by_start_def)
next
  case (Cons first rest)
  have set_eq: "set (first # rest) = set ranges"
    using Cons by (metis sort_by_start_def set_sort)
  have wf: "well_formed first" "list_all well_formed rest"
    using assms set_eq by (auto simp: list_all_iff)
  have srt: "sorted (map (\<lambda>r. instant (start r)) (first # rest))"
    using Cons by (metis sort_by_start_def sorted_sort_key)
  from merge_loop_canonical [OF wf srt]
  obtain res where res: "merge_loop [] first rest = Inr res" "canonical res"
    "\<forall>t. covered res t = (contains first t \<or> covered rest t)"
    by blast
  have "\<forall>t. covered res t = covered ranges t"
  proof
    fix t
    have "covered res t = covered (first # rest) t"
      using res(3) by (simp add: covered_Cons)
    also have "\<dots> = covered ranges t"
      using set_eq by (simp only: covered_set)
    finally show "covered res t = covered ranges t" .
  qed
  then show ?thesis
    using res(1,2) Cons by (simp add: merge_ranges_def)
qed

lemma canonical_well_formed: "canonical rs \<Longrightarrow> list_all well_formed rs"
  by (induction rs rule: canonical.induct) auto

lemma set_get_cached_ranges: "set (get_cached_ranges db) = set (date_ranges db)"
  by (simp add: get_cached_ranges_def)

text \<open>
  Claim C4. From a state whose stored ranges form a canonical cover (well formed,
  ascending, pairwise non-overlapping), adding a well-formed range with
  \<open>update_date_ranges\<close> succeeds, stores a canonical cover again, and the instants
  covered afterwards are exactly those covered before together with those of the
  added range: nothing covered is lost.
\<close>

theorem update_date_ranges_canonical:
  assumes "canonical (date_ranges db)" and "well_formed new_range"
  shows "\<exists>merged. update_date_ranges db work new_range = Inr (work\<lparr>date_ranges := merged\<rparr>)
           \<and> canonical merged
           \<and> (\<forall>t. covered merged t = (covered (date_ranges db) t \<or> contains new_range t))"
proof -
  have "list_all well_formed (get_cached_ranges db @ [new_range])"
    using canonical_well_formed [OF assms(1)] assms(2)
    by (simp add: list_all_iff set_get_cached_ranges)
  from merge_ranges_sorted [OF this]
  obtain res where res:
    "merge_ranges (sort_by_start (get_cached_ranges db @ [new_range])) = Inr res"
    "canonical res"
    "\<forall>t. covered res t = covered (get_cached_ranges db @ [new_range]) t"
    by blast
  have "\<forall>t. covered res t = (covered (date_ranges db) t \<or> contains new_range t)"
    using res(3) by (auto simp: covered_set set_get_cached_ranges)
  then show ?thesis
    using res(1,2) by (auto simp: update_date_ranges_def)
qed

text \<open>
  The scenario of the specification: the cache holds 2024-01-01 to 2024-01-05 and
  2024-01-04 to 2024-01-10 is added; the stored cover becomes the single range
  2024-01-01 to 2024-01-10.
\<close>

theorem update_date_ranges_canonical_witness:
  "canonical (date_ranges \<lparr>emails = [], date_ranges =
       [\<lparr>start = utc_day 2024 1 1, end_dt = utc_day 2024 1 5\<rparr>]\<rparr>)
   \<and> well_formed \<lparr>start = utc_day 2024 1 4, end_dt = utc_day 2024 1 10\<rparr>
   \<and> (\<exists>merged.
        update_date_ranges
          \<lparr>emails = [], date_ranges = [\<lparr>start = utc_day 2024 1 1, end_dt = utc_day 2024 1 5\<rparr>]\<rparr>
          \<lparr>emails = [], date_ranges = [\<lparr>start = utc_day 2024 1 1, end_dt = utc_day 2024 1 5\<rparr>]\<rparr>
          \<lparr>start = utc_day 2024 1 4, end_dt = utc_day 2024 1 10\<rparr>
        = Inr (\<lparr>emails = [], date_ranges =
                 [\<lparr>start = utc_day 2024 1 1, end_dt = utc_day 2024 1 5\<rparr>]\<rparr>\<lparr>date_ranges := merged\<rparr>)
        \<and> canonical merged
        \<and> (\<forall>t. covered merged t =
             (covered (date_ranges \<lparr>emails = [], date_ranges =
                 [\<lparr>start = utc_day 2024 1 1, end_dt = utc_day 2024 1 5\<rparr>]\<rparr>) t
              \<or> contains \<lparr>start = utc_day 2024 1 4, end_dt = utc_day 2024 1 10\<rparr> t)))
   \<and> update_date_ranges
        \<lparr>emails = [], date_ranges = [\<lparr>start = utc_day 2024 1 1, end_dt = utc_day 2024 1 5\<rparr>]\<rparr>
        \<lparr>emails = [], date_ranges = [\<lparr>start = utc_day 2024 1 1, end_dt = utc_day 2024 1 5\<rparr>]\<rparr>
        \<lparr>start = utc_day 2024 1 4, end_dt = utc_day 2024 1 10\<rparr>
      = Inr \<lparr>emails = [], date_ranges = [\<lparr>start = utc_day 2024 1 1, end_dt = utc_day 2024 1 10\<rparr>]\<rparr>"
proof -
  have h1: "canonical (date_ranges \<lparr>emails = [], date_ranges =
       [\<lparr>start = utc_day 2024 1 1, end_dt = utc_day 2024 1 5\<rparr>]\<rparr>)"
    by (simp add: well_formed_def utc_day_def calendar_defs)
  have h2: "well_formed \<lparr>start = utc_day 2024 1 4, end_dt = utc_day 2024 1 10\<rparr>"
    by (simp add: well_formed_def utc_day_def calendar_defs)
  have run: "update_date_ranges
        \<lparr>emails = [], date_ranges = [\<lparr>start = utc_day 2024 1 1, end_dt = utc_day 2024 1 5\<rparr>]\<rparr>
        \<lparr>emails = [], date_ranges = [\<lparr>start = utc_day 2024 1 1, end_dt = utc_day 2024 1 5\<rparr>]\<rparr>
        \<lparr>start = utc_day 2024 1 4, end_dt = utc_day 2024 1 10\<rparr>
      = Inr \<lparr>emails = [], date_ranges = [\<lparr>start = utc_day 2024 1 1, end_dt = utc_day 2024 1 10\<rparr>]\<rparr>"
    by (simp add: update_date_ranges_def get_cached_ranges_def sort_by_start_def
        merge_ranges_def merge_def overlaps_def py_min_def py_max_def utc_day_def calendar_defs)
  show ?thesis
    using h1 h2 run update_date_ranges_canonical [OF h1 h2] by blast
qed

section \<open>Values of the concrete timestamps\<close>

lemma instant_utc_day: "instant (utc_day y m d) = ymd2ord y m d * 86400000000"
  by (simp add: instant_def utc_day_def)

lemma ymd2ord_2024_01_02: "ymd2ord 2024 1 2 = 738887"
  by (simp add: ymd2ord_def days_before_year_def days_before_month_def is_leap_def)

lemma ymd2ord_2024_01_03: "ymd2ord 2024 1 3 = 738888"
  by (simp add: ymd2ord_def days_before_year_def days_before_month_def is_leap_def)

lemma instant_new_york_evening: "instant new_york_evening = 738887 * 86400000000 + 14400000000"
  by (simp add: new_york_evening_def calendar_defs)

lemma isoformat_new_york_evening: "isoformat new_york_evening = ''2024-01-01T23:00:00-05:00''"
  by (simp add: new_york_evening_def isoformat_defs)

lemma isoformat_jan_2: "isoformat (utc_day 2024 1 2) = ''2024-01-02T00:00:00+00:00''"
  by (simp add: utc_day_def isoformat_defs)

lemma isoformat_jan_3: "isoformat (utc_day 2024 1 3) = ''2024-01-03T00:00:00+00:00''"
  by (simp add: utc_day_def isoformat_defs)

section \<open>The storing transaction\<close>

lemma transaction_body_outcome:
  "(\<exists>e conn. transaction_body flt now (connect db) new_emails date_range = (Some e, conn)
        \<and> committed conn = db)
   \<or> (flt \<noteq> Some CommitFails \<and> (\<forall>n. flt \<noteq> Some (InsertFails n))
        \<and> (\<forall>n. flt \<noteq> Some (UpdateRangesFails n))
        \<and> (\<exists>db'. transaction_body flt now (connect db) new_emails date_range
                    = (None, \<lparr>committed = db', pending = db'\<rparr>)
              \<and> update_date_ranges db
                   (db\<lparr>emails := insert_emails now new_emails (emails db)\<rparr>) date_range = Inr db'))"
proof (cases "update_date_ranges db
                (db\<lparr>emails := insert_emails now new_emails (emails db)\<rparr>) date_range")
  case (Inl e)
  then show ?thesis
    by (cases flt; cases "the flt")
       (auto simp: transaction_body_def connect_def commit_def Let_def)
next
  case (Inr p)
  then show ?thesis
    by (cases flt; cases "the flt")
       (auto simp: transaction_body_def connect_def commit_def Let_def)
qed

lemma store_emails_all_or_nothing:
  assumes "new_emails \<noteq> []"
  shows "(\<exists>e. store_emails flt now db new_emails date_range = (Some e, db))
         \<or> (\<exists>db'. store_emails flt now db new_emails date_range = (None, db')
               \<and> emails db' = insert_emails now new_emails (emails db)
               \<and> update_date_ranges db
                    (db\<lparr>emails := insert_emails now new_emails (emails db)\<rparr>) date_range = Inr db')"
proof -
  from transaction_body_outcome [of flt now db new_emails date_range]
  show ?thesis
  proof (elim disjE exE conjE)
    fix e conn
    assume "transaction_body flt now (connect db) new_emails date_range = (Some e, conn)"
      and "committed conn = db"
    then show ?thesis
      using assms by (simp add: store_emails_def rollback_def)
  next
    fix db'
    assume run: "transaction_body flt now (connect db) new_emails date_range
                   = (None, \<lparr>committed = db', pending = db'\<rparr>)"
      and upd: "update_date_ranges db
                  (db\<lparr>emails := insert_emails now new_emails (emails db)\<rparr>) date_range = Inr db'"
    from upd have "emails db' = insert_emails now new_emails (emails db)"
      by (auto simp: update_date_ranges_def split: sum.splits)
    then show ?thesis
      using assms run upd by (simp add: store_emails_def)
  qed
qed

text \<open>
  The merging loop only calls \<open>merge\<close> on ranges that overlap, so it never raises:
  without a failure of SQLite the coverage update goes through.
\<close>

lemma merge_loop_total: "\<exists>merged. merge_loop acc current ranges = Inr merged"
  by (induction ranges arbitrary: acc current) (simp_all add: merge_def)

lemma merge_ranges_total: "\<exists>merged. merge_ranges ranges = Inr merged"
  by (cases ranges) (simp_all add: merge_ranges_def merge_loop_total)

lemma store_emails_commits:
  assumes "new_emails \<noteq> []"
    and "merge_ranges (sort_by_start (get_cached_ranges db @ [date_range])) = Inr merged"
  shows "store_emails None now db new_emails date_range
           = (None, \<lparr>emails = insert_emails now new_emails (emails db), date_ranges = merged\<rparr>)"
  using assms
  by (simp add: store_emails_def transaction_body_def connect_def commit_def
      update_date_ranges_def Let_def)

lemma store_emails_raises:
  assumes "new_emails \<noteq> []"
  shows "\<exists>e. store_emails (Some f) now db new_emails date_range = (Some e, db)"
proof -
  from transaction_body_outcome [of "Some f" now db new_emails date_range]
  obtain e conn where
    "transaction_body (Some f) now (connect db) new_emails date_range = (Some e, conn)"
    "committed conn = db"
    by (cases f) auto
  then show ?thesis
    using assms by (simp add: store_emails_def rollback_def)
qed

text \<open>
  Claim C3. For a non-empty list of records \<open>store_emails\<close> is one transaction
  over both tables. Whichever statement of it fails (the inserts into \<open>emails\<close>, the
  rewrite of \<open>date_ranges\<close>, or the commit), the error is raised to the caller and the
  database is exactly what it was before the call: neither table keeps any part of
  the attempt. When no statement fails, the call returns without an error and both
  changes are there together: \<open>emails\<close> holds the upserted records and
  \<open>date_ranges\<close> the cover merged with the new range. There is no third outcome.
\<close>

theorem store_emails_atomic:
  assumes "new_emails \<noteq> []"
  shows "(\<exists>e. store_emails (Some f) now db new_emails date_range = (Some e, db))
       \<and> (\<exists>merged. merge_ranges (sort_by_start (get_cached_ranges db @ [date_range])) = Inr merged
            \<and> store_emails None now db new_emails date_range
                = (None, \<lparr>emails = insert_emails now new_emails (emails db),
                          date_ranges = merged\<rparr>))"
proof -
  obtain merged where
    m: "merge_ranges (sort_by_start (get_cached_ranges db @ [date_range])) = Inr merged"
    using merge_ranges_total by blast
  from store_emails_raises [OF assms] store_emails_commits [OF assms m] m
  show ?thesis by blast
qed

text \<open>
  The table holds an earlier copy of a message and no coverage. Storing the message
  for the range 2024-01-01 to 2024-01-03 with a failing commit leaves both tables as
  they were; without a failure the copy is replaced and the range recorded.
\<close>

theorem store_emails_atomic_witness:
  "[alice_mail] \<noteq> []
   \<and> (\<exists>e. store_emails (Some CommitFails) (utc_day 2024 1 4)
           \<lparr>emails = [(old_alice, utc_day 2024 1 3)], date_ranges = []\<rparr>
           [alice_mail] \<lparr>start = utc_day 2024 1 1, end_dt = utc_day 2024 1 3\<rparr>
         = (Some e, \<lparr>emails = [(old_alice, utc_day 2024 1 3)], date_ranges = []\<rparr>))
   \<and> store_emails None (utc_day 2024 1 4)
        \<lparr>emails = [(old_alice, utc_day 2024 1 3)], date_ranges = []\<rparr>
        [alice_mail] \<lparr>start = utc_day 2024 1 1, end_dt = utc_day 2024 1 3\<rparr>
      = (None, \<lparr>emails = [(alice_mail, utc_day 2024 1 4)],
                date_ranges = [\<lparr>start = utc_day 2024 1 1, end_dt = utc_day 2024 1 3\<rparr>]\<rparr>)"
proof -
  have h: "[alice_mail] \<noteq> []"
    by simp
  have m: "merge_ranges (sort_by_start
             (get_cached_ranges \<lparr>emails = [(old_alice, utc_day 2024 1 3)], date_ranges = []\<rparr>
                @ [\<lparr>start = utc_day 2024 1 1, end_dt = utc_day 2024 1 3\<rparr>]))
           = Inr [\<lparr>start = utc_day 2024 1 1, end_dt = utc_day 2024 1 3\<rparr>]"
    by (simp add: merge_ranges_def sort_by_start_def get_cached_ranges_def)
  have i: "insert_emails (utc_day 2024 1 4) [alice_mail] [(old_alice, utc_day 2024 1 3)]
           = [(alice_mail, utc_day 2024 1 4)]"
    by (simp add: insert_emails_def upsert_def old_alice_def alice_mail_def)
  show ?thesis
    using h m i store_emails_atomic [OF h, of CommitFails "utc_day 2024 1 4"
        "\<lparr>emails = [(old_alice, utc_day 2024 1 3)], date_ranges = []\<rparr>"
        "\<lparr>start = utc_day 2024 1 1, end_dt = utc_day 2024 1 3\<rparr>"]
    by simp
qed

section \<open>Searching the cache\<close>

text \<open>
  For a pattern that compiles, \<open>search_emails\<close> returns the rows whose
  \<open>from_address\<close> the pattern matches (the subject is never looked at) and whose
  stored date text lies, in text order, between the ISO texts of the window's ends,
  both ends included, in the order in which the table or the index is walked.
\<close>

lemma search_emails_result:
  assumes "\<forall>text. re_search pattern text \<noteq> None"
  shows "search_emails re_search db pattern date_range =
           Inr (map fst (filter (\<lambda>row. re_search pattern (from_address (fst row)) = Some True
                                      \<and> in_window date_range row)
                          (scan_rows date_range (emails db))))"
proof -
  have "\<not> list_ex (\<lambda>row. re_search pattern (from_address (fst row)) = None)
            (filter (in_window date_range) (scan_rows date_range (emails db)))"
    using assms by (simp add: list_ex_iff)
  then show ?thesis
    by (simp add: search_emails_def Let_def conj_commute)
qed

text \<open>
  Claim C6 (the input it fails on). The table holds one message from
  \<^verbatim>\<open>alice@example.com\<close> dated 2024-01-01T23:00:00-05:00, the instant 2024-01-02 04:00
  UTC. The window is 2024-01-02T00:00:00+00:00 to 2024-01-03T00:00:00+00:00 and the
  pattern \<^verbatim>\<open>alice\<close> matches the sender. The instant of the message lies within the
  window, yet the search returns no record: the stored text
  \<^verbatim>\<open>2024-01-01T23:00:00-05:00\<close> is below the text of the window's start.
\<close>

theorem search_emails_offset_excluded:
  "isoformat new_york_evening = ''2024-01-01T23:00:00-05:00''
   \<and> instant (utc_day 2024 1 2) \<le> instant (date alice_mail)
   \<and> instant (date alice_mail) \<le> instant (utc_day 2024 1 3)
   \<and> plain_search ''alice'' (from_address alice_mail) = Some True
   \<and> search_emails plain_search
        \<lparr>emails = [(alice_mail, utc_day 2024 1 2)], date_ranges = []\<rparr>
        ''alice'' (Some \<lparr>start = utc_day 2024 1 2, end_dt = utc_day 2024 1 3\<rparr>)
      = Inr []"
proof -
  have matches: "plain_search ''alice'' (from_address alice_mail) = Some True"
    by (simp add: plain_search_def plain_char_def alice_mail_def)
  have inside: "instant (utc_day 2024 1 2) \<le> instant (date alice_mail)"
    "instant (date alice_mail) \<le> instant (utc_day 2024 1 3)"
    by (simp_all add: alice_mail_def instant_new_york_evening instant_utc_day
        ymd2ord_2024_01_02 ymd2ord_2024_01_03)
  have below: "\<not> isoformat (utc_day 2024 1 2) \<le> isoformat (date alice_mail)"
    by (simp add: alice_mail_def isoformat_new_york_evening isoformat_jan_2)
  have found: "search_emails plain_search
        \<lparr>emails = [(alice_mail, utc_day 2024 1 2)], date_ranges = []\<rparr>
        ''alice'' (Some \<lparr>start = utc_day 2024 1 2, end_dt = utc_day 2024 1 3\<rparr>)
      = Inr []"
    using below by (simp add: search_emails_def scan_rows_def in_window_def)
  show ?thesis
    using matches inside found isoformat_new_york_evening by simp
qed

section \<open>Retention trim\<close>

text \<open>
  What \<open>cleanup_old_data\<close> does, in terms of the stored text: it keeps the emails
  whose date text is not below the text of the cutoff; it removes the ranges whose
  end text is below it, and of the others raises the start to the cutoff where the
  start text is below it, leaving the end as it is.
\<close>

lemma cleanup_old_data_emails:
  "emails (cleanup_old_data cutoff_date db) =
     filter (\<lambda>row. isoformat (date (fst row)) \<ge> isoformat cutoff_date) (emails db)"
  by (simp add: cleanup_old_data_def Let_def not_less)

lemma cleanup_old_data_ranges:
  "date_ranges (cleanup_old_data cutoff_date db) =
     map (\<lambda>r. if isoformat (start r) < isoformat cutoff_date then r\<lparr>start := cutoff_date\<rparr> else r)
       (filter (\<lambda>r. isoformat (end_dt r) \<ge> isoformat cutoff_date) (date_ranges db))"
  by (simp add: cleanup_old_data_def Let_def not_less filter_map comp_def if_distrib [of end_dt]
      cong: if_cong)

text \<open>
  Claim C7 (the input it fails on). With the cutoff 2024-01-02T00:00:00+00:00 the
  message dated 2024-01-01T23:00:00-05:00 is deleted, although its instant,
  2024-01-02 04:00 UTC, is not before the cutoff.
\<close>

theorem cleanup_old_data_offset_deleted:
  "instant (utc_day 2024 1 2) \<le> instant (date alice_mail)
   \<and> emails (cleanup_old_data (utc_day 2024 1 2)
        \<lparr>emails = [(alice_mail, utc_day 2024 1 2)], date_ranges = []\<rparr>) = []"
proof -
  have later: "instant (utc_day 2024 1 2) \<le> instant (date alice_mail)"
    by (simp add: alice_mail_def instant_new_york_evening instant_utc_day
        ymd2ord_2024_01_02)
  have below: "isoformat (date alice_mail) < isoformat (utc_day 2024 1 2)"
    by (simp add: alice_mail_def isoformat_new_york_evening isoformat_jan_2)
  show ?thesis
    using later below by (simp add: cleanup_old_data_def)
qed

section \<open>Fetching: which messages are returned\<close>

text \<open>
  When every item the loop looks at is falsy or a pair whose \<^verbatim>\<open>Message-ID\<close> is a
  \<^verbatim>\<open>str\<close>, the batch is processed without an error: falsy items and messages whose
  identifier or sender comes out empty contribute nothing, the others are appended
  in order.
\<close>

lemma process_batch_skips:
  "list_all readable (looked_at header_data) \<Longrightarrow>
   process_batch L acc header_data = Inr (acc @ concat (map (records_of L) (looked_at header_data)))"
proof (induction L acc header_data rule: process_batch.induct)
  case (1 L acc)
  show ?case by simp
next
  case (2 L acc rest)
  then show ?case by (simp add: records_of_def readable_def)
next
  case (3 L acc b rest)
  then show ?case by (simp add: records_of_def readable_def)
next
  case (4 L acc envelope h rest)
  from "4.prems" obtain raw where raw: "header_get h ''Message-ID'' [] = Text raw"
    by (auto simp: readable_def split: header_value.splits)
  then have "\<exists>r. parse_message L h = Inr r"
    by (simp add: parse_message_def Let_def)
  then obtain r where r: "parse_message L h = Inr r" ..
  show ?case
  proof (cases r)
    case None
    with r "4.IH"(1) "4.prems" show ?thesis by (simp add: records_of_def)
  next
    case (Some e)
    with r "4.IH"(2) "4.prems" show ?thesis by (simp add: records_of_def)
  qed
qed


lemma parse_message_rejects:
  "(parse_message L h = Inr None) =
     (\<exists>raw. header_get h ''Message-ID'' [] = Text raw
        \<and> (strip raw = [] \<or> decode_header L (header_get h ''From'' []) = []))"
  by (auto simp: parse_message_def truthy_str_def truthy_datetime_def Let_def
      split: header_value.splits)

lemma parse_message_raises:
  "(parse_message L h = Inl e) =
     (e = AttributeError \<and> (\<exists>s. header_get h ''Message-ID'' [] = HeaderObject s))"
  by (auto simp: parse_message_def Let_def split: header_value.splits)




lemma batches_short: "xs \<noteq> [] \<Longrightarrow> length xs \<le> n \<Longrightarrow> batches n xs = [xs]"
  by (subst batches.simps, subst batches.simps) (cases xs; auto)

lemmas header_defs =
  header_get_def header_lookup_def lower_char_def upper_case_def lower_case_def

lemmas quote_defs = quote_def percent_def hex_digit_def unreserved_def

lemma parse_alice: "parse_message plain_libs alice_header = Inr (Some alice_mail)"
  by (simp add: parse_message_def alice_header_def alice_mail_def plain_libs_def header_defs
      strip_def is_space_def decode_header_def parse_date_def generate_gmail_link_def
      truthy_str_def truthy_datetime_def quote_defs)

lemma parse_bob: "parse_message plain_libs bob_header = Inr (Some bob_mail)"
  by (simp add: parse_message_def bob_header_def bob_mail_def plain_libs_def header_defs
      strip_def is_space_def decode_header_def parse_date_def generate_gmail_link_def
      truthy_str_def truthy_datetime_def quote_defs)

lemma parse_raw_id: "parse_message plain_libs raw_id_header = Inl AttributeError"
  by (simp add: parse_message_def raw_id_header_def header_defs)

lemma fetch_three:
  "fetch_emails plain_libs (Some three_message_server) r = Inr [alice_mail, bob_mail]"
  by (simp add: fetch_emails_def three_message_server_def batches_short
      three_message_response_def parse_alice parse_bob)

text \<open>
  The scenario of the specification: three identifiers, the item of the second is
  falsy; two records are returned and no error is raised.
\<close>

lemma process_batch_three_messages:
  "process_batch plain_libs [] three_message_response = Inr [alice_mail, bob_mail]"
  by (simp add: three_message_response_def parse_alice parse_bob)

text \<open>
  Claim C5 (the input it fails on). The second of three messages has a
  \<^verbatim>\<open>Message-ID\<close> field with a byte outside ASCII, so \<^verbatim>\<open>header.get\<close> returns a
  \<^verbatim>\<open>Header\<close> object and \<^verbatim>\<open>.strip()\<close> raises \<^verbatim>\<open>AttributeError\<close>. The message is not
  skipped: the exception leaves \<^verbatim>\<open>fetch_emails\<close>, and the two good messages of the
  batch are not returned either.
\<close>

theorem fetch_emails_raw_message_id:
  "process_batch plain_libs [] raw_id_response = Inl AttributeError
   \<and> fetch_emails plain_libs
        (Some \<lparr>imap_search = (\<lambda>r. Inr [''1'', ''2'', ''3'']),
               imap_fetch = (\<lambda>batch. Inr raw_id_response)\<rparr>)
        \<lparr>start = utc_day 2024 1 1, end_dt = utc_day 2024 1 4\<rparr>
      = Inl AttributeError"
  by (simp add: fetch_emails_def batches_short raw_id_response_def
      parse_alice parse_bob parse_raw_id)








section \<open>The search service and the pattern\<close>

lemma fetch_calls_fetch_missing:
  "fetch_calls (fst (fetch_missing L client faults db ranges)) = ranges"
proof (induction ranges arbitrary: db)
  case Nil
  show ?case by simp
next
  case (Cons r rest)
  show ?case
  proof (cases "fetch_emails L client r")
    case (Inl e)
    with Cons.IH [of db] show ?thesis
      by (auto split: prod.splits)
  next
    case (Inr new_emails)
    show ?thesis
    proof (cases "new_emails = []")
      case True
      with Inr Cons.IH [of db] show ?thesis
        by (auto split: prod.splits)
    next
      case False
      obtain raised db1 where st:
        "store_emails (faults r) (lib_now L) db new_emails r = (raised, db1)"
        by (cases "store_emails (faults r) (lib_now L) db new_emails r")
      with Inr False Cons.IH [of db1] show ?thesis
        by (auto split: prod.splits)
    qed
  qed
qed

lemma target_last_year: "target_range_of plain_libs None = last_year"
  by (simp add: target_range_of_def plain_libs_def last_year_def utc_day_def)

lemma find_missing_empty: "find_missing_ranges \<lparr>emails = [], date_ranges = []\<rparr> t = [t]"
  by (simp add: find_missing_ranges_def find_missing_ranges_in_def get_cached_ranges_def)

lemma unterminated_group: "plain_search ''('' text = None"
  by (simp add: plain_search_def plain_char_def)

text \<open>
  Claim C2 (as stated, it fails). The cache is empty, the server has no message, the
  pattern is \<^verbatim>\<open>(\<close>, which does not compile. \<open>search\<close> calls \<open>fetch_emails\<close> for the
  whole window and then returns the empty list: no error is raised, and the fetch
  was made.
\<close>

theorem search_invalid_pattern_fetches:
  "plain_search ''('' ''bob@example.com'' = None
   \<and> search plain_libs plain_search (Some empty_server) no_faults
        \<lparr>emails = [], date_ranges = []\<rparr> ''('' None
      = ([FetchCall last_year], \<lparr>emails = [], date_ranges = []\<rparr>, Inr [])"
  by (simp add: unterminated_group search_def target_last_year find_missing_empty
      fetch_emails_def empty_server_def search_emails_def scan_rows_def newest_first_def)

text \<open>
  With messages on the server the same call fetches and stores them, and the error
  comes out of the query of the store, after the network access.
\<close>

lemma isoformat_2023_01_04: "isoformat (utc_day 2023 1 4) = ''2023-01-04T00:00:00+00:00''"
  by (simp add: utc_day_def isoformat_defs)

lemma isoformat_2024_01_04: "isoformat (utc_day 2024 1 4) = ''2024-01-04T00:00:00+00:00''"
  by (simp add: utc_day_def isoformat_defs)

lemma store_two:
  "store_emails None (utc_day 2024 1 4) \<lparr>emails = [], date_ranges = []\<rparr>
     [alice_mail, bob_mail] last_year
   = (None, \<lparr>emails = [(alice_mail, utc_day 2024 1 4), (bob_mail, utc_day 2024 1 4)],
             date_ranges = [last_year]\<rparr>)"
  by (simp add: store_emails_def transaction_body_def connect_def commit_def
      update_date_ranges_def get_cached_ranges_def sort_by_start_def merge_ranges_def
      insert_emails_def upsert_def alice_mail_def bob_mail_def)

lemma search_invalid_pattern_reaches_store:
  "search plain_libs plain_search (Some three_message_server) no_faults
     \<lparr>emails = [], date_ranges = []\<rparr> ''('' None
   = ([FetchCall last_year, StoreCall last_year],
      \<lparr>emails = [(alice_mail, utc_day 2024 1 4), (bob_mail, utc_day 2024 1 4)],
        date_ranges = [last_year]\<rparr>,
      Inl RegexError)"
proof -
  have now: "lib_now plain_libs = utc_day 2024 1 4"
    by (simp add: plain_libs_def)
  have bob_in: "in_window (Some last_year) (bob_mail, utc_day 2024 1 4)"
    by (simp add: in_window_def last_year_def bob_mail_def
        isoformat_2023_01_04 isoformat_2024_01_04)
  have alice_in: "in_window (Some last_year) (alice_mail, utc_day 2024 1 4)"
    by (simp add: in_window_def last_year_def alice_mail_def
        isoformat_2023_01_04 isoformat_2024_01_04 isoformat_new_york_evening)
  have walk: "scan_rows (Some last_year)
       [(alice_mail, utc_day 2024 1 4), (bob_mail, utc_day 2024 1 4)]
     = [(alice_mail, utc_day 2024 1 4), (bob_mail, utc_day 2024 1 4)]"
    by (simp add: scan_rows_def alice_mail_def bob_mail_def
        isoformat_2024_01_04 isoformat_new_york_evening)
  have query: "search_emails plain_search
       \<lparr>emails = [(alice_mail, utc_day 2024 1 4), (bob_mail, utc_day 2024 1 4)],
         date_ranges = [last_year]\<rparr> ''('' (Some last_year) = Inl RegexError"
    using alice_in bob_in by (simp add: search_emails_def walk unterminated_group)
  show ?thesis
    using query
    by (simp add: search_def target_last_year find_missing_empty fetch_three
        no_faults_def now store_two)
qed

text \<open>
  Claim C2 (amended). \<open>search\<close> does not look at the pattern before fetching: for
  every pattern, \<open>fetch_emails\<close> is called for each gap of the target window, in
  order; the calls made and the database they leave do not depend on the pattern;
  and the pattern is handed as it is to \<open>search_emails\<close> on that database, whose
  records, newest first, or whose error is the result.
\<close>

theorem search_fetches_before_pattern:
  "fetch_calls (fst (search L re_search client faults db pattern days_back))
     = find_missing_ranges db (target_range_of L days_back)
   \<and> fst (search L re_search client faults db pattern days_back)
     = fst (fetch_missing L client faults db (find_missing_ranges db (target_range_of L days_back)))
   \<and> fst (snd (search L re_search client faults db pattern days_back))
     = snd (fetch_missing L client faults db (find_missing_ranges db (target_range_of L days_back)))
   \<and> snd (snd (search L re_search client faults db pattern days_back))
     = map_sum id newest_first
         (search_emails re_search
            (snd (fetch_missing L client faults db
                    (find_missing_ranges db (target_range_of L days_back))))
            pattern (Some (target_range_of L days_back)))"
proof -
  obtain log db' where run:
    "fetch_missing L client faults db (find_missing_ranges db (target_range_of L days_back))
       = (log, db')"
    by (cases "fetch_missing L client faults db
                 (find_missing_ranges db (target_range_of L days_back))")
  have calls: "fetch_calls log = find_missing_ranges db (target_range_of L days_back)"
    using fetch_calls_fetch_missing [of L client faults db
        "find_missing_ranges db (target_range_of L days_back)"] run
    by simp
  show ?thesis
    using run calls by (simp add: search_def Let_def)
qed

text \<open>
  The check of the pattern is in the caller: \<open>get_search_pattern\<close> only hands on a
  pattern that \<^verbatim>\<open>re.compile\<close> accepted.
\<close>

lemma get_search_pattern_compiles:
  "get_search_pattern re_compiles typed = Some (Some pattern) \<Longrightarrow> re_compiles pattern"
  by (induction typed) (auto split: if_splits)

section \<open>Gap computation when no cached range starts after the target\<close>

lemma canonical_tail: "canonical (c # rest) \<Longrightarrow> canonical rest"
  by (cases rest) simp_all

lemma canonical_head: "canonical (c # rest) \<Longrightarrow> well_formed c"
  by (cases rest) simp_all

lemma canonical_later:
  "canonical (c # rest) \<Longrightarrow> list_all (\<lambda>r. instant (end_dt c) < instant (start r)) rest"
proof (induction rest arbitrary: c)
  case Nil
  show ?case by simp
next
  case (Cons r rest)
  from Cons.prems have lt: "instant (end_dt c) < instant (start r)"
    and can: "canonical (r # rest)"
    by simp_all
  from can have wf: "well_formed r" by (rule canonical_head)
  from Cons.IH [OF can] have "list_all (\<lambda>x. instant (end_dt r) < instant (start x)) rest" .
  moreover have "instant (end_dt c) < instant (end_dt r)"
    using wf lt by (simp add: well_formed_def)
  ultimately have "list_all (\<lambda>x. instant (end_dt c) < instant (start x)) rest"
    by (induction rest) auto
  with lt show ?case by simp
qed

lemma scan_cached_gaps:
  assumes "canonical C" and "list_all (\<lambda>c. instant (start c) \<le> E) C"
  shows "list_all (\<lambda>g. instant current \<le> instant (start g)
                       \<and> instant (start g) < instant (end_dt g)
                       \<and> instant (end_dt g) \<le> E
                       \<and> instant (end_dt g) \<le> instant (snd (scan_cached [] current C)))
           (fst (scan_cached [] current C))
         \<and> in_sequence (fst (scan_cached [] current C))
         \<and> list_all (\<lambda>c. instant (end_dt c) \<le> instant (snd (scan_cached [] current C))) C
         \<and> (\<forall>t. instant current \<le> t \<and> t \<le> instant (snd (scan_cached [] current C))
                  \<and> instant current < instant (snd (scan_cached [] current C))
                 \<longrightarrow> covered C t \<or> covered (fst (scan_cached [] current C)) t)
         \<and> (\<forall>t. list_ex (\<lambda>g. inside g t) (fst (scan_cached [] current C))
                 \<longrightarrow> \<not> covered C t)"
  using assms
proof (induction C arbitrary: current)
  case Nil
  show ?case by (simp add: in_sequence_def covered_def)
next
  case (Cons c rest)
  define nxt where "nxt = py_max current (end_dt c)"
  define G where "G = fst (scan_cached [] nxt rest)"
  define fin where "fin = snd (scan_cached [] nxt rest)"
  have wf: "well_formed c" using Cons.prems(1) by (rule canonical_head)
  have can: "canonical rest" using Cons.prems(1) by (rule canonical_tail)
  have later: "list_all (\<lambda>r. instant (end_dt c) < instant (start r)) rest"
    using Cons.prems(1) by (rule canonical_later)
  have cE: "instant (start c) \<le> E" and restE: "list_all (\<lambda>c. instant (start c) \<le> E) rest"
    using Cons.prems(2) by simp_all
  have nxt_val: "instant nxt = max (instant current) (instant (end_dt c))"
    by (simp add: nxt_def instant_py_max)
  have nxt_fin: "instant nxt \<le> instant fin"
    unfolding fin_def by (rule scan_cached_cursor)
  from Cons.IH [OF can restE, of nxt]
  have ih1: "list_all (\<lambda>g. instant nxt \<le> instant (start g)
                       \<and> instant (start g) < instant (end_dt g)
                       \<and> instant (end_dt g) \<le> E
                       \<and> instant (end_dt g) \<le> instant fin) G"
    and ih2: "in_sequence G"
    and ih3: "list_all (\<lambda>c. instant (end_dt c) \<le> instant fin) rest"
    and ih4: "\<forall>t. instant nxt \<le> t \<and> t \<le> instant fin \<and> instant nxt < instant fin
                 \<longrightarrow> covered rest t \<or> covered G t"
    and ih5: "\<forall>t. list_ex (\<lambda>g. inside g t) G \<longrightarrow> \<not> covered rest t"
    by (simp_all add: G_def fin_def)
  have G_after: "list_all (\<lambda>g. instant (end_dt c) \<le> instant (start g)
                                \<and> instant current \<le> instant (start g)) G"
    using ih1 nxt_val by (auto simp: list_all_iff)
  have G_not_c: "\<forall>t. list_ex (\<lambda>g. inside g t) G \<longrightarrow> \<not> contains c t"
    using G_after by (auto simp: list_ex_iff list_all_iff inside_def contains_def)
  show ?case
  proof (cases "instant current < instant (start c)")
    case True
    define g0 where "g0 = \<lparr>start = current, end_dt = start c\<rparr>"
    have res: "scan_cached [] current (c # rest) = (g0 # G, fin)"
      using True scan_cached_acc [of "[g0]" nxt rest]
      by (simp add: g0_def nxt_def G_def fin_def)
    have nxt_c: "instant nxt = instant (end_dt c)"
      using True wf nxt_val by (simp add: well_formed_def)
    have p1: "list_all (\<lambda>g. instant current \<le> instant (start g)
                       \<and> instant (start g) < instant (end_dt g)
                       \<and> instant (end_dt g) \<le> E
                       \<and> instant (end_dt g) \<le> instant fin) (g0 # G)"
      using True cE wf nxt_c nxt_fin ih1 G_after
      by (auto simp: g0_def well_formed_def list_all_iff)
    have p2: "in_sequence (g0 # G)"
      using ih2 G_after wf
      by (auto simp: in_sequence_def g0_def well_formed_def list_all_iff)
    have p3: "list_all (\<lambda>c. instant (end_dt c) \<le> instant fin) (c # rest)"
      using ih3 nxt_c nxt_fin by simp
    have p4: "\<forall>t. instant current \<le> t \<and> t \<le> instant fin \<and> instant current < instant fin
                 \<longrightarrow> covered (c # rest) t \<or> covered (g0 # G) t"
    proof (intro allI impI)
      fix t
      assume t: "instant current \<le> t \<and> t \<le> instant fin \<and> instant current < instant fin"
      show "covered (c # rest) t \<or> covered (g0 # G) t"
      proof (cases "t \<le> instant (start c)")
        case True
        with t have "contains g0 t" by (simp add: contains_def g0_def)
        then show ?thesis by (simp add: covered_Cons)
      next
        case False
        show ?thesis
        proof (cases "t \<le> instant (end_dt c)")
          case True
          with False have "contains c t" by (simp add: contains_def)
          then show ?thesis by (simp add: covered_Cons)
        next
          case False
          with t nxt_c have "instant nxt \<le> t \<and> t \<le> instant fin \<and> instant nxt < instant fin"
            by simp
          with ih4 have "covered rest t \<or> covered G t" by blast
          then show ?thesis by (auto simp: covered_Cons)
        qed
      qed
    qed
    have p5: "\<forall>t. list_ex (\<lambda>g. inside g t) (g0 # G) \<longrightarrow> \<not> covered (c # rest) t"
    proof (intro allI impI)
      fix t
      assume "list_ex (\<lambda>g. inside g t) (g0 # G)"
      then consider "inside g0 t" | "list_ex (\<lambda>g. inside g t) G" by auto
      then show "\<not> covered (c # rest) t"
      proof cases
        case 1
        then have lt: "t < instant (start c)" by (simp add: inside_def g0_def)
        then have "\<not> contains c t" by (simp add: contains_def)
        moreover have "\<not> covered rest t"
          using lt later wf
          by (auto simp: covered_set contains_def list_all_iff well_formed_def)
        ultimately show ?thesis by (simp add: covered_Cons)
      next
        case 2
        with ih5 G_not_c show ?thesis by (simp add: covered_Cons)
      qed
    qed
    show ?thesis
      unfolding res fst_conv snd_conv using p1 p2 p3 p4 p5 by blast
  next
    case False
    have res: "scan_cached [] current (c # rest) = (G, fin)"
      using False by (simp add: nxt_def G_def fin_def)
    have p1: "list_all (\<lambda>g. instant current \<le> instant (start g)
                       \<and> instant (start g) < instant (end_dt g)
                       \<and> instant (end_dt g) \<le> E
                       \<and> instant (end_dt g) \<le> instant fin) G"
      using ih1 G_after by (auto simp: list_all_iff)
    have p3: "list_all (\<lambda>c. instant (end_dt c) \<le> instant fin) (c # rest)"
      using ih3 nxt_val nxt_fin by simp
    have p4: "\<forall>t. instant current \<le> t \<and> t \<le> instant fin \<and> instant current < instant fin
                 \<longrightarrow> covered (c # rest) t \<or> covered G t"
    proof (intro allI impI)
      fix t
      assume t: "instant current \<le> t \<and> t \<le> instant fin \<and> instant current < instant fin"
      show "covered (c # rest) t \<or> covered G t"
      proof (cases "t \<le> instant (end_dt c)")
        case True
        with t False have "contains c t" by (simp add: contains_def)
        then show ?thesis by (simp add: covered_Cons)
      next
        case False
        with t nxt_val nxt_fin
        have "instant nxt \<le> t \<and> t \<le> instant fin \<and> instant nxt < instant fin"
          by (auto simp: max_def split: if_splits)
        with ih4 have "covered rest t \<or> covered G t" by blast
        then show ?thesis by (auto simp: covered_Cons)
      qed
    qed
    have p5: "\<forall>t. list_ex (\<lambda>g. inside g t) G \<longrightarrow> \<not> covered (c # rest) t"
      using ih5 G_not_c by (simp add: covered_Cons)
    show ?thesis
      unfolding res fst_conv snd_conv using p1 ih2 p3 p4 p5 by blast
  qed
qed

text \<open>
  Where \<open>find_missing_ranges\<close> is right: for a canonical cover none of whose ranges
  starts after the end of the target, and a target that is not a single instant,
  every gap lies within the target, the gaps are in sequence, every instant of the
  target is in a cached range or in a gap, and no instant strictly inside a gap is
  in a cached range. (A gap and the cached range next to it share their end
  point.)
\<close>

lemma find_missing_ranges_in_correct:
  assumes "canonical C" and "instant (start T) < instant (end_dt T)"
    and "list_all (\<lambda>c. instant (start c) \<le> instant (end_dt T)) C"
  shows "list_all (\<lambda>g. within g T) (find_missing_ranges_in C T)
         \<and> in_sequence (find_missing_ranges_in C T)
         \<and> (\<forall>t. contains T t \<longrightarrow> covered C t \<or> covered (find_missing_ranges_in C T) t)
         \<and> (\<forall>t. list_ex (\<lambda>g. inside g t) (find_missing_ranges_in C T) \<longrightarrow> \<not> covered C t)"
proof (cases "C = []")
  case True
  then show ?thesis
    by (simp add: find_missing_ranges_in_def within_def in_sequence_def covered_def)
next
  case False
  define G where "G = fst (scan_cached [] (start T) C)"
  define fin where "fin = snd (scan_cached [] (start T) C)"
  from scan_cached_gaps [OF assms(1) assms(3), of "start T"]
  have g1: "list_all (\<lambda>g. instant (start T) \<le> instant (start g)
                       \<and> instant (start g) < instant (end_dt g)
                       \<and> instant (end_dt g) \<le> instant (end_dt T)
                       \<and> instant (end_dt g) \<le> instant fin) G"
    and g2: "in_sequence G"
    and g3: "list_all (\<lambda>c. instant (end_dt c) \<le> instant fin) C"
    and g4: "\<forall>t. instant (start T) \<le> t \<and> t \<le> instant fin
                  \<and> instant (start T) < instant fin \<longrightarrow> covered C t \<or> covered G t"
    and g5: "\<forall>t. list_ex (\<lambda>g. inside g t) G \<longrightarrow> \<not> covered C t"
    by (simp_all add: G_def fin_def)
  have fin_ge: "instant (start T) \<le> instant fin"
    unfolding fin_def by (rule scan_cached_cursor)
  show ?thesis
  proof (cases "instant fin < instant (end_dt T)")
    case True
    define tr where "tr = \<lparr>start = fin, end_dt = end_dt T\<rparr>"
    have res: "find_missing_ranges_in C T = G @ [tr]"
      using False True
      by (cases "scan_cached [] (start T) C")
         (simp add: find_missing_ranges_in_def G_def fin_def tr_def)
    have p1: "list_all (\<lambda>g. within g T) (G @ [tr])"
      using g1 fin_ge by (auto simp: within_def tr_def list_all_iff)
    have p2: "in_sequence (G @ [tr])"
      using g2 g1 by (auto simp: in_sequence_def sorted_wrt_append tr_def list_all_iff)
    have p3: "\<forall>t. contains T t \<longrightarrow> covered C t \<or> covered (G @ [tr]) t"
    proof (intro allI impI)
      fix t
      assume t: "contains T t"
      show "covered C t \<or> covered (G @ [tr]) t"
      proof (cases "t < instant fin")
        case True
        with t have "instant (start T) \<le> t \<and> t \<le> instant fin \<and> instant (start T) < instant fin"
          by (simp add: contains_def)
        with g4 have "covered C t \<or> covered G t" by blast
        then show ?thesis by (auto simp: covered_append)
      next
        case False
        with t have "contains tr t" by (simp add: contains_def tr_def)
        then show ?thesis by (simp add: covered_append covered_Cons covered_Nil)
      qed
    qed
    have p4: "\<forall>t. list_ex (\<lambda>g. inside g t) (G @ [tr]) \<longrightarrow> \<not> covered C t"
    proof (intro allI impI)
      fix t
      assume "list_ex (\<lambda>g. inside g t) (G @ [tr])"
      then consider "list_ex (\<lambda>g. inside g t) G" | "inside tr t" by auto
      then show "\<not> covered C t"
      proof cases
        case 1
        with g5 show ?thesis by simp
      next
        case 2
        then have "instant fin < t" by (simp add: inside_def tr_def)
        then show ?thesis
          using g3 by (auto simp: covered_set contains_def list_all_iff)
      qed
    qed
    show ?thesis
      unfolding res using p1 p2 p3 p4 by blast
  next
    case no_trailing: False
    have res: "find_missing_ranges_in C T = G"
      using False no_trailing
      by (cases "scan_cached [] (start T) C")
         (simp add: find_missing_ranges_in_def G_def fin_def)
    have p1: "list_all (\<lambda>g. within g T) G"
      using g1 by (auto simp: within_def list_all_iff)
    have p3: "\<forall>t. contains T t \<longrightarrow> covered C t \<or> covered G t"
      using g4 no_trailing assms(2) by (auto simp: contains_def)
    show ?thesis
      unfolding res using p1 g2 p3 g5 by blast
  qed
qed

end
